theory Spec2Isabelle
  imports Complex_Main "HOL-Library.Word"
begin

section \<open>Data model of \<^verbatim>\<open>internal/state/state.go\<close> and \<^verbatim>\<open>internal/config/config.go\<close>\<close>

text \<open>
  Go's \<^verbatim>\<open>time.Time\<close> is an instant; it is kept as the number of nanoseconds since the zero
  instant, so that \<^verbatim>\<open>IsZero\<close> is the test for 0. \<^verbatim>\<open>time.Duration\<close> is an \<^verbatim>\<open>int64\<close> of
  nanoseconds and \<^verbatim>\<open>Time.Sub\<close> saturates at its two ends.
\<close>

type_synonym Time = int
type_synonym Duration = int

definition IsZero :: "Time \<Rightarrow> bool" where
  "IsZero t \<longleftrightarrow> t = 0"

definition maxDuration :: Duration where
  "maxDuration = 2 ^ 63 - 1"

definition minDuration :: Duration where
  "minDuration = - (2 ^ 63)"

definition Sub :: "Time \<Rightarrow> Time \<Rightarrow> Duration" where
  "Sub t u = (if t - u > maxDuration then maxDuration
              else if t - u < minDuration then minDuration
              else t - u)"

text \<open>\<^verbatim>\<open>config.CheckType\<close> is a string type with three named values.\<close>

type_synonym CheckType = string

definition CheckPing :: CheckType where "CheckPing = ''ping''"
definition CheckHTTP :: CheckType where "CheckHTTP = ''http''"
definition CheckTCP :: CheckType where "CheckTCP = ''tcp''"

record CheckDataPoint =
  dpTimestamp :: Time
  dpOK :: bool
  dpLatencyMS :: int

text \<open>
  The message of a check and of an event is the text built by \<^verbatim>\<open>fmt.Sprintf\<close> or taken from a
  probe's error; it is kept as the format with its arguments.
\<close>

datatype Msg =
    MsgNone
  | MsgPong
  | MsgParentCheckFailed
  | MsgNoReply
  | MsgErr string
  | MsgStatusExpect int int
  | MsgPortOpen int
  | MsgPortClosed int
  | MsgBackUpAfter Duration

record Event =
  evTimestamp :: Time
  evHostName :: string
  evCheckIdx :: nat
  evCheckType :: CheckType
  evEventType :: string
  evMessage :: Msg
  evDuration :: Duration

text \<open>
  \<^verbatim>\<open>CheckStatus\<close>, field by field. The two lifetime counters are \<^verbatim>\<open>int64\<close> and are kept as
  64-bit words read by \<open>sint\<close>, since \<^verbatim>\<open>++\<close> wraps. Latencies are milliseconds of a probe
  bounded by its timeout and are kept as integers.
\<close>

record CheckStatus =
  Type :: CheckType
  Enabled :: bool
  OK :: bool
  ParentFailed :: bool
  ParentID :: string
  Message :: Msg
  LatencyMS :: int
  LatencyHistory :: "int list"
  FullHistory :: "CheckDataPoint list"
  CheckedAt :: Time
  URL :: string
  Expect :: int
  Port :: int
  ID :: string
  DependsOn :: string
  MQTTNotify :: bool
  TotalChecks :: "64 word"
  SuccessChecks :: "64 word"
  LastDownAt :: Time
  LastUpAt :: Time

definition maxLatencyHistory :: nat where "maxLatencyHistory = 20"
definition maxFullHistory :: nat where "maxFullHistory = 1000"
definition maxEvents :: nat where "maxEvents = 500"

text \<open>The zero value of the struct, which a composite literal starts from.\<close>

definition zeroCheckStatus :: CheckStatus where
  "zeroCheckStatus = \<lparr>Type = [], Enabled = False, OK = False, ParentFailed = False,
     ParentID = [], Message = MsgNone, LatencyMS = 0, LatencyHistory = [], FullHistory = [],
     CheckedAt = 0, URL = [], Expect = 0, Port = 0, ID = [], DependsOn = [],
     MQTTNotify = False, TotalChecks = 0, SuccessChecks = 0, LastDownAt = 0, LastUpAt = 0\<rparr>"

section \<open>Analytics: \<^verbatim>\<open>recordDataPoint\<close>\<close>

definition recordDataPoint :: "Time \<Rightarrow> bool \<Rightarrow> int \<Rightarrow> CheckStatus \<Rightarrow> CheckStatus" where
  "recordDataPoint ts ok latencyMS c =
     (let lh = LatencyHistory c @ [latencyMS];
          lh' = (if length lh > maxLatencyHistory then tl lh else lh);
          fh = FullHistory c @ [\<lparr>dpTimestamp = ts, dpOK = ok, dpLatencyMS = latencyMS\<rparr>];
          fh' = (if length fh > maxFullHistory then tl fh else fh)
      in c\<lparr>LatencyHistory := lh', FullHistory := fh',
           TotalChecks := TotalChecks c + 1,
           SuccessChecks := (if ok then SuccessChecks c + 1 else SuccessChecks c)\<rparr>)"

text \<open>
  A run of evaluations of one check, each given by its time, its recorded outcome and its
  recorded latency, as far as the analytics are concerned.
\<close>

type_synonym evaluation = "Time \<times> bool \<times> int"

definition evOK :: "evaluation \<Rightarrow> bool" where
  "evOK e = fst (snd e)"

definition evLatency :: "evaluation \<Rightarrow> int" where
  "evLatency e = snd (snd e)"

definition evPoint :: "evaluation \<Rightarrow> CheckDataPoint" where
  "evPoint e = \<lparr>dpTimestamp = fst e, dpOK = evOK e, dpLatencyMS = evLatency e\<rparr>"

definition recordAll :: "evaluation list \<Rightarrow> CheckStatus \<Rightarrow> CheckStatus" where
  "recordAll evs c = foldl (\<lambda>c e. recordDataPoint (fst e) (evOK e) (evLatency e) c) c evs"

text \<open>The most recent \<open>k\<close> entries of a history.\<close>

definition lastn :: "nat \<Rightarrow> 'a list \<Rightarrow> 'a list" where
  "lastn k xs = drop (length xs - k) xs"

section \<open>The declarative configuration (\<^verbatim>\<open>config.Check\<close>, \<^verbatim>\<open>config.Host\<close>, \<^verbatim>\<open>config.Config\<close>)\<close>

text \<open>
  The fields of the configuration carry the prefix \<open>cfg\<close> to keep them apart from the fields
  of the runtime status. The channel settings are not read or written by any operation below
  and are left out.
\<close>

record Check =
  cfgType :: CheckType
  cfgEnabled :: bool
  cfgURL :: string
  cfgExpect :: int
  cfgPort :: int
  cfgID :: string
  cfgDependsOn :: string
  cfgMQTTNotify :: bool
  cfgPushoverNotify :: bool
  cfgTelegramNotify :: bool

record Host =
  cfgName :: string
  cfgAddress :: string
  cfgChecks :: "Check list"
  cfgHealthchecksPingURL :: string

record Config =
  Hosts :: "Host list"

definition zeroCheck :: Check where
  "zeroCheck = \<lparr>cfgType = [], cfgEnabled = False, cfgURL = [], cfgExpect = 0, cfgPort = 0,
     cfgID = [], cfgDependsOn = [], cfgMQTTNotify = False, cfgPushoverNotify = False,
     cfgTelegramNotify = False\<rparr>"

section \<open>The status store: \<^verbatim>\<open>State\<close>, with the memory behind its slices and pointers\<close>

text \<open>
  \<^verbatim>\<open>HostStatus.Checks\<close> is a slice of \<^verbatim>\<open>CheckStatus\<close> and \<^verbatim>\<open>checksByID\<close> holds pointers
  \<^verbatim>\<open>&hs.Checks[i]\<close> into the arrays behind those slices. The arrays are therefore kept in an
  explicit memory: an address holds an array (its length is the capacity), a slice is an
  address with a length (every slice of checks in the program starts at offset 0), and a
  pointer to a check is an address with an index. Address 0 holds the empty array behind the
  nil slice.
\<close>

type_synonym addr = nat

record slice =
  base :: addr
  len :: nat

type_synonym ptr = "addr \<times> nat"

definition nilSlice :: slice where
  "nilSlice = \<lparr>base = 0, len = 0\<rparr>"

record HostStatus =
  Name :: string
  Address :: string
  Checks :: slice
  HCURL :: string

text \<open>What leaves the process besides the event log: health pings and broker messages.\<close>

datatype Notification =
    HealthchecksOK string
  | HealthchecksFail string
  | MQTTStateChange string string string string

text \<open>
  \<^verbatim>\<open>State\<close> with the package-level \<^verbatim>\<open>eventLog\<close>, the memory of check arrays, the file at
  \<^verbatim>\<open>configPath\<close> (\<open>None\<close> while nothing was written to it, otherwise the configuration whose
  encoding it holds) and the notifications sent so far.
\<close>

record State =
  cfg :: Config
  hosts :: "string \<rightharpoonup> HostStatus"
  checksByID :: "string \<rightharpoonup> ptr"
  configPath :: string
  heap :: "addr \<Rightarrow> CheckStatus list"
  nextAddr :: addr
  eventLog :: "Event list"
  disk :: "Config option"
  sent :: "Notification list"

definition deref :: "State \<Rightarrow> ptr \<Rightarrow> CheckStatus" where
  "deref s p = heap s (fst p) ! snd p"

definition store :: "ptr \<Rightarrow> CheckStatus \<Rightarrow> State \<Rightarrow> State" where
  "store p c s = s\<lparr>heap := (heap s)(fst p := (heap s (fst p))[snd p := c])\<rparr>"

text \<open>The elements of a slice, and the pointer to its \<open>i\<close>-th element.\<close>

definition elems :: "State \<Rightarrow> slice \<Rightarrow> CheckStatus list" where
  "elems s sl = take (len sl) (heap s (base sl))"

definition elemPtr :: "slice \<Rightarrow> nat \<Rightarrow> ptr" where
  "elemPtr sl i = (base sl, i)"

text \<open>
  \<^verbatim>\<open>append(sl, c)\<close>: in place when the capacity allows, otherwise into a fresh array that
  receives a copy of the elements. The capacity of the fresh array is the runtime's choice, at
  least the new length; doubling is taken here.
\<close>

definition growCap :: "nat \<Rightarrow> nat \<Rightarrow> nat" where
  "growCap oldCap newLen = max newLen (2 * oldCap)"

definition appendCheck :: "slice \<Rightarrow> CheckStatus \<Rightarrow> State \<Rightarrow> slice \<times> State" where
  "appendCheck sl c s =
     (if len sl < length (heap s (base sl))
      then (sl\<lparr>len := Suc (len sl)\<rparr>,
            s\<lparr>heap := (heap s)(base sl := (heap s (base sl))[len sl := c])\<rparr>)
      else (\<lparr>base = nextAddr s, len = Suc (len sl)\<rparr>,
            s\<lparr>heap := (heap s)(nextAddr s :=
                   take (len sl) (heap s (base sl)) @ [c]
                   @ replicate (growCap (length (heap s (base sl))) (Suc (len sl)) - Suc (len sl))
                       zeroCheckStatus),
              nextAddr := Suc (nextAddr s)\<rparr>))"

text \<open>
  \<^verbatim>\<open>append(sl[:idx], sl[idx+1:]...)\<close>: the capacity always allows it, so the elements after
  \<open>idx\<close> move down one place inside the same array; the place of the former last element
  keeps its content.
\<close>

definition removeAt :: "nat \<Rightarrow> slice \<Rightarrow> State \<Rightarrow> slice \<times> State" where
  "removeAt idx sl s =
     (sl\<lparr>len := len sl - 1\<rparr>,
      s\<lparr>heap := (heap s)(base sl :=
             take idx (heap s (base sl))
             @ take (len sl - Suc idx) (drop (Suc idx) (heap s (base sl)))
             @ drop (len sl - 1) (heap s (base sl)))\<rparr>)"

subsection \<open>\<^verbatim>\<open>rebuildCheckIndex\<close>, \<^verbatim>\<open>GetCheckByID\<close>\<close>

text \<open>
  \<^verbatim>\<open>range\<close> over the map \<^verbatim>\<open>s.hosts\<close> visits its keys in an order the language leaves open;
  the order of one such loop is the argument \<open>order\<close> of the functions that contain it.
\<close>

fun indexChecks :: "addr \<Rightarrow> CheckStatus list \<Rightarrow> nat \<Rightarrow> (string \<rightharpoonup> ptr) \<Rightarrow> (string \<rightharpoonup> ptr)" where
  "indexChecks a [] i m = m"
| "indexChecks a (c # cs) i m =
     indexChecks a cs (Suc i) (if ID c \<noteq> [] then m(ID c \<mapsto> (a, i)) else m)"

fun indexHosts :: "string list \<Rightarrow> State \<Rightarrow> (string \<rightharpoonup> ptr) \<Rightarrow> (string \<rightharpoonup> ptr)" where
  "indexHosts [] s m = m"
| "indexHosts (n # ns) s m =
     (case hosts s n of
        None \<Rightarrow> indexHosts ns s m
      | Some hs \<Rightarrow> indexHosts ns s (indexChecks (base (Checks hs)) (elems s (Checks hs)) 0 m))"

definition rebuildCheckIndex :: "string list \<Rightarrow> State \<Rightarrow> State" where
  "rebuildCheckIndex order s = s\<lparr>checksByID := indexHosts order s Map.empty\<rparr>"

definition GetCheckByID :: "State \<Rightarrow> string \<Rightarrow> ptr option" where
  "GetCheckByID s cid = checksByID s cid"

subsection \<open>\<^verbatim>\<open>IsParentOK\<close>\<close>

text \<open>
  The recursion follows \<^verbatim>\<open>DependsOn\<close> through the index with no guard against a cycle, on
  which the program overflows its stack; not returning is the value \<open>None\<close>.
\<close>

partial_function (option) IsParentOK :: "State \<Rightarrow> CheckStatus \<Rightarrow> bool option" where
  "IsParentOK s c =
     (if DependsOn c = [] then Some True
      else case checksByID s (DependsOn c) of
             None \<Rightarrow> Some True
           | Some p \<Rightarrow>
               if \<not> Enabled (deref s p) then Some True
               else if IsZero (CheckedAt (deref s p)) then Some True
               else Option.bind (IsParentOK s (deref s p))
                      (\<lambda>r. if \<not> r then Some False else Some (OK (deref s p))))"

section \<open>The evaluation pass: \<^verbatim>\<open>runOnce\<close>, \<^verbatim>\<open>logEvent\<close>\<close>

text \<open>
  The probes are outside the program. A probe is made for a target; what it returns (the
  fields \<^verbatim>\<open>OK\<close>, \<^verbatim>\<open>Code\<close>, \<^verbatim>\<open>Latency\<close> in milliseconds and \<^verbatim>\<open>Err\<close> of the result structs of
  the package \<^verbatim>\<open>checks\<close>) is given by the environment of the pass, for the check at position
  \<open>i\<close> of the host under a key.
\<close>

datatype Target =
    PingTarget string
  | HTTPTarget string
  | TCPTarget string int

record ProbeResult =
  prOK :: bool
  prCode :: int
  prLatencyMS :: int
  prErr :: "string option"

type_synonym Probes = "string \<Rightarrow> nat \<Rightarrow> Target \<Rightarrow> ProbeResult"

definition logEvent :: "Event \<Rightarrow> State \<Rightarrow> State" where
  "logEvent e s =
     s\<lparr>eventLog := (if length (eventLog s @ [e]) > maxEvents
                     then tl (eventLog s @ [e]) else eventLog s @ [e])\<rparr>"

definition notify :: "Notification list \<Rightarrow> State \<Rightarrow> State" where
  "notify ns s = s\<lparr>sent := sent s @ ns\<rparr>"

text \<open>
  \<^verbatim>\<open>publishMQTTStateChange\<close>, guarded as at its three call sites by \<^verbatim>\<open>c.MQTTNotify\<close>; the
  client of a \<^verbatim>\<open>State\<close> built by \<^verbatim>\<open>New\<close> is never nil.
\<close>

definition publishMQTTStateChange :: "HostStatus \<Rightarrow> CheckStatus \<Rightarrow> string \<Rightarrow> State \<Rightarrow> State" where
  "publishMQTTStateChange hs c status s =
     (if MQTTNotify c then notify [MQTTStateChange (Name hs) (Address hs) (ID c) status] s else s)"

text \<open>The three cases of the \<^verbatim>\<open>switch c.Type\<close>, each ending in \<^verbatim>\<open>recordDataPoint\<close>.\<close>

definition casePing :: "ProbeResult \<Rightarrow> HostStatus \<Rightarrow> Time \<Rightarrow> bool \<Rightarrow> CheckStatus
    \<Rightarrow> CheckStatus \<times> Notification list" where
  "casePing res hs now parentOK c0 =
     (let c = c0\<lparr>CheckedAt := now\<rparr>;
          actualOK = prOK res
      in if prOK res
         then (let c = c\<lparr>OK := True, ParentFailed := False, Message := MsgPong,
                         LatencyMS := prLatencyMS res\<rparr>
               in (recordDataPoint now actualOK (LatencyMS c) c,
                   if HCURL hs \<noteq> [] then [HealthchecksOK (HCURL hs)] else []))
         else if \<not> parentOK
         then (let c = c\<lparr>OK := False, ParentFailed := True, Message := MsgParentCheckFailed,
                         LatencyMS := 0\<rparr>
               in (recordDataPoint now actualOK (LatencyMS c) c, []))
         else (let c = c\<lparr>OK := False, ParentFailed := False,
                         Message := (case prErr res of Some e \<Rightarrow> MsgErr e | None \<Rightarrow> MsgNoReply),
                         LatencyMS := 0\<rparr>
               in (recordDataPoint now actualOK (LatencyMS c) c,
                   if HCURL hs \<noteq> [] then [HealthchecksFail (HCURL hs)] else [])))"

definition httpActualOK :: "ProbeResult \<Rightarrow> CheckStatus \<Rightarrow> bool" where
  "httpActualOK res c =
     (if prErr res = None
      then prCode res = (if Expect c = 0 then 200 else Expect c)
      else False)"

definition caseHTTP :: "ProbeResult \<Rightarrow> HostStatus \<Rightarrow> Time \<Rightarrow> bool \<Rightarrow> CheckStatus
    \<Rightarrow> CheckStatus \<times> Notification list" where
  "caseHTTP res hs now parentOK c0 =
     (let c = c0\<lparr>CheckedAt := now\<rparr>;
          actualOK = httpActualOK res c
      in if actualOK
         then (let c = c\<lparr>OK := True, ParentFailed := False,
                         Message := (if Expect c = 0 then MsgStatusExpect (prCode res) 200
                                     else MsgStatusExpect (prCode res) (Expect c)),
                         LatencyMS := prLatencyMS res\<rparr>
               in (recordDataPoint now actualOK (LatencyMS c) c, []))
         else if \<not> parentOK
         then (let c = c\<lparr>OK := False, ParentFailed := True, Message := MsgParentCheckFailed,
                         LatencyMS := 0\<rparr>
               in (recordDataPoint now actualOK (LatencyMS c) c, []))
         else (let c = c\<lparr>OK := False, ParentFailed := False,
                         Message := (case prErr res of
                                       Some e \<Rightarrow> MsgErr e
                                     | None \<Rightarrow> MsgStatusExpect (prCode res)
                                                (if Expect c = 0 then 200 else Expect c)),
                         LatencyMS := prLatencyMS res\<rparr>
               in (recordDataPoint now actualOK (LatencyMS c) c, [])))"

definition caseTCP :: "ProbeResult \<Rightarrow> int \<Rightarrow> HostStatus \<Rightarrow> Time \<Rightarrow> bool \<Rightarrow> CheckStatus
    \<Rightarrow> CheckStatus \<times> Notification list" where
  "caseTCP res port hs now parentOK c0 =
     (let c = c0\<lparr>CheckedAt := now\<rparr>;
          actualOK = prOK res
      in if prOK res
         then (let c = c\<lparr>OK := True, ParentFailed := False, Message := MsgPortOpen port,
                         LatencyMS := prLatencyMS res\<rparr>
               in (recordDataPoint now actualOK (LatencyMS c) c, []))
         else if \<not> parentOK
         then (let c = c\<lparr>OK := False, ParentFailed := True, Message := MsgParentCheckFailed,
                         LatencyMS := 0\<rparr>
               in (recordDataPoint now actualOK (LatencyMS c) c, []))
         else (let c = c\<lparr>OK := False, ParentFailed := False,
                         Message := (case prErr res of Some e \<Rightarrow> MsgErr e | None \<Rightarrow> MsgPortClosed port),
                         LatencyMS := 0\<rparr>
               in (recordDataPoint now actualOK (LatencyMS c) c, [])))"

text \<open>
  The target of the probe, with the defaults of the \<^verbatim>\<open>switch\<close>: the URL \<^verbatim>\<open>"http://" + Address\<close>
  and the port 80.
\<close>

definition httpURL :: "HostStatus \<Rightarrow> CheckStatus \<Rightarrow> string" where
  "httpURL hs c = (if URL c = [] then ''http://'' @ Address hs else URL c)"

definition tcpPort :: "CheckStatus \<Rightarrow> int" where
  "tcpPort c = (if Port c = 0 then 80 else Port c)"

definition switchType :: "Probes \<Rightarrow> string \<Rightarrow> nat \<Rightarrow> HostStatus \<Rightarrow> Time \<Rightarrow> bool \<Rightarrow> CheckStatus
    \<Rightarrow> CheckStatus \<times> Notification list" where
  "switchType probe name i hs now parentOK c =
     (if Type c = CheckPing
        then casePing (probe name i (PingTarget (Address hs))) hs now parentOK c
      else if Type c = CheckHTTP
        then caseHTTP (probe name i (HTTPTarget (httpURL hs c))) hs now parentOK c
      else if Type c = CheckTCP
        then caseTCP (probe name i (TCPTarget (Address hs) (tcpPort c))) (tcpPort c) hs now parentOK c
      else (c, []))"

text \<open>
  The tracking of state changes that ends the loop body. The text of a recovery message shows
  the duration rounded to seconds; the duration itself is kept as its argument.
\<close>

definition downEvent :: "Time \<Rightarrow> HostStatus \<Rightarrow> nat \<Rightarrow> CheckStatus \<Rightarrow> Event" where
  "downEvent now hs i c =
     \<lparr>evTimestamp = now, evHostName = Name hs, evCheckIdx = i, evCheckType = Type c,
      evEventType = ''down'', evMessage = Message c, evDuration = 0\<rparr>"

definition recoveredEvent :: "Time \<Rightarrow> HostStatus \<Rightarrow> nat \<Rightarrow> CheckStatus \<Rightarrow> Duration \<Rightarrow> Event" where
  "recoveredEvent now hs i c duration =
     \<lparr>evTimestamp = now, evHostName = Name hs, evCheckIdx = i, evCheckType = Type c,
      evEventType = ''recovered'', evMessage = MsgBackUpAfter duration, evDuration = duration\<rparr>"

definition trackStateChange :: "Time \<Rightarrow> HostStatus \<Rightarrow> nat \<Rightarrow> bool \<Rightarrow> bool \<Rightarrow> bool
    \<Rightarrow> CheckStatus \<Rightarrow> State \<Rightarrow> CheckStatus \<times> State" where
  "trackStateChange now hs i wasChecked wasOK wasParentFailed c s =
     (if wasChecked
      then if wasOK \<and> \<not> OK c \<and> \<not> ParentFailed c
           then (let c = c\<lparr>LastDownAt := now\<rparr>
                 in (c, publishMQTTStateChange hs c ''down'' (logEvent (downEvent now hs i c) s)))
           else if \<not> wasOK \<and> OK c
           then (let duration = (if \<not> IsZero (LastDownAt c) then Sub now (LastDownAt c) else 0);
                     c = c\<lparr>LastUpAt := now\<rparr>
                 in if \<not> wasParentFailed
                    then (c, publishMQTTStateChange hs c ''up''
                               (logEvent (recoveredEvent now hs i c duration) s))
                    else (c, s))
           else if wasParentFailed \<and> \<not> ParentFailed c \<and> \<not> OK c
           then (let c = c\<lparr>LastDownAt := now\<rparr>
                 in (c, publishMQTTStateChange hs c ''down'' (logEvent (downEvent now hs i c) s)))
           else (c, s)
      else (c, s))"

text \<open>
  The body of the inner loop for the check at position \<open>i\<close> of the host \<open>hs\<close> found under the
  key \<open>name\<close>, once \<^verbatim>\<open>IsParentOK\<close> has returned \<open>parentOK\<close>; \<open>c\<close> is the pointer
  \<^verbatim>\<open>&hs.Checks[i]\<close>, read at the start and written back at the end.
\<close>

definition evalBody :: "Probes \<Rightarrow> Time \<Rightarrow> string \<Rightarrow> HostStatus \<Rightarrow> nat \<Rightarrow> bool \<Rightarrow> State \<Rightarrow> State" where
  "evalBody probe now name hs i parentOK s =
     (let c = deref s (elemPtr (Checks hs) i);
          wasOK = OK c;
          wasChecked = (\<not> IsZero (CheckedAt c));
          wasParentFailed = ParentFailed c;
          c1 = (if DependsOn c \<noteq> [] then c\<lparr>ParentID := DependsOn c\<rparr> else c);
          (c2, out) = switchType probe name i hs now parentOK c1;
          (c3, s') = trackStateChange now hs i wasChecked wasOK wasParentFailed c2 (notify out s)
      in store (elemPtr (Checks hs) i) c3 s')"

definition evalCheck :: "Probes \<Rightarrow> Time \<Rightarrow> string \<Rightarrow> nat \<Rightarrow> State \<Rightarrow> State option" where
  "evalCheck probe now name i s =
     (case hosts s name of
        None \<Rightarrow> Some s
      | Some hs \<Rightarrow>
          if \<not> Enabled (deref s (elemPtr (Checks hs) i)) then Some s
          else Option.bind (IsParentOK s (deref s (elemPtr (Checks hs) i)))
                 (\<lambda>parentOK. Some (evalBody probe now name hs i parentOK s)))"

fun evalChecks :: "Probes \<Rightarrow> Time \<Rightarrow> string \<Rightarrow> nat list \<Rightarrow> State \<Rightarrow> State option" where
  "evalChecks probe now name [] s = Some s"
| "evalChecks probe now name (i # is) s =
     Option.bind (evalCheck probe now name i s) (evalChecks probe now name is)"

fun evalHosts :: "Probes \<Rightarrow> Time \<Rightarrow> string list \<Rightarrow> State \<Rightarrow> State option" where
  "evalHosts probe now [] s = Some s"
| "evalHosts probe now (name # names) s =
     (case hosts s name of
        None \<Rightarrow> evalHosts probe now names s
      | Some hs \<Rightarrow>
          Option.bind (evalChecks probe now name [0 ..< len (Checks hs)] s)
            (evalHosts probe now names))"

text \<open>
  \<^verbatim>\<open>runOnce\<close> at the time \<open>now\<close> that \<^verbatim>\<open>time.Now()\<close> returned, visiting the hosts in \<open>order\<close>.
\<close>

definition runOnce :: "Probes \<Rightarrow> Time \<Rightarrow> string list \<Rightarrow> State \<Rightarrow> State option" where
  "runOnce probe now order s = evalHosts probe now order s"

section \<open>Persistence: \<^verbatim>\<open>saveConfigLocked\<close>\<close>

text \<open>
  \<^verbatim>\<open>filepath.Ext\<close>: the suffix from the last dot of the last element of the path, empty when
  that element has no dot.
\<close>

definition Ext :: "string \<Rightarrow> string" where
  "Ext path =
     (let r = takeWhile (\<lambda>ch. ch \<noteq> CHR ''/'') (rev path)
      in if CHR ''.'' \<in> set r
         then CHR ''.'' # rev (takeWhile (\<lambda>ch. ch \<noteq> CHR ''.'') r)
         else [])"

text \<open>
  The errors the operations return, and what the file system does in one call of
  \<^verbatim>\<open>saveConfigLocked\<close>: whether writing the temporary file, renaming it over the original and
  writing the original directly succeed.
\<close>

datatype Error =
    ErrHostExists
  | ErrHostNotFound
  | ErrHostNameExists
  | ErrBadIndex
  | ErrNotHTTPCheck
  | ErrNotTCPCheck
  | ErrWrite

record FileOps =
  writeTmpOK :: bool
  renameOK :: bool
  writeDirectOK :: bool

fun syncChecks :: "Check list \<Rightarrow> CheckStatus list \<Rightarrow> Check list" where
  "syncChecks [] rs = []"
| "syncChecks (ck # cks) [] = ck # cks"
| "syncChecks (ck # cks) (r # rs) = ck\<lparr>cfgMQTTNotify := MQTTNotify r\<rparr> # syncChecks cks rs"

definition syncHost :: "State \<Rightarrow> Host \<Rightarrow> Host" where
  "syncHost s h =
     (case hosts s (cfgName h) of
        None \<Rightarrow> h
      | Some hs \<Rightarrow> h\<lparr>cfgHealthchecksPingURL := HCURL hs,
                      cfgChecks := syncChecks (cfgChecks h) (elems s (Checks hs))\<rparr>)"

text \<open>
  Both encodings take the same path through the function, so the two branches of the
  \<^verbatim>\<open>switch\<close> are one here; the encoder does not fail on a \<^verbatim>\<open>Config\<close>. After a failed direct
  write the content of the file is not known.
\<close>

definition saveConfigLocked :: "FileOps \<Rightarrow> State \<Rightarrow> Error option \<times> State" where
  "saveConfigLocked io s =
     (if configPath s = [] then (None, s)
      else let s1 = s\<lparr>cfg := (cfg s)\<lparr>Hosts := map (syncHost s) (Hosts (cfg s))\<rparr>\<rparr>
           in if Ext (configPath s) = ''.yaml'' \<or> Ext (configPath s) = ''.yml''
                 \<or> Ext (configPath s) = ''.toml''
              then if \<not> writeTmpOK io then (Some ErrWrite, s1)
                   else if renameOK io then (None, s1\<lparr>disk := Some (cfg s1)\<rparr>)
                   else if writeDirectOK io then (None, s1\<lparr>disk := Some (cfg s1)\<rparr>)
                   else (Some ErrWrite, s1\<lparr>disk := None\<rparr>)
              else (None, s1))"

section \<open>The mutating operations of the store\<close>

text \<open>The loops over \<^verbatim>\<open>s.cfg.Hosts\<close> that act on the first host of a name and \<^verbatim>\<open>break\<close>.\<close>

fun updateFirst :: "string \<Rightarrow> (Host \<Rightarrow> Host) \<Rightarrow> Host list \<Rightarrow> Host list" where
  "updateFirst name f [] = []"
| "updateFirst name f (h # hs) =
     (if cfgName h = name then f h # hs else h # updateFirst name f hs)"

fun removeFirst :: "string \<Rightarrow> Host list \<Rightarrow> Host list" where
  "removeFirst name [] = []"
| "removeFirst name (h # hs) = (if cfgName h = name then hs else h # removeFirst name hs)"

definition updateCfgHosts :: "(Host list \<Rightarrow> Host list) \<Rightarrow> State \<Rightarrow> State" where
  "updateCfgHosts f s = s\<lparr>cfg := (cfg s)\<lparr>Hosts := f (Hosts (cfg s))\<rparr>\<rparr>"

definition setHost :: "string \<Rightarrow> HostStatus \<Rightarrow> State \<Rightarrow> State" where
  "setHost name hs s = s\<lparr>hosts := (hosts s)(name \<mapsto> hs)\<rparr>"

definition AddHost :: "FileOps \<Rightarrow> string \<Rightarrow> string \<Rightarrow> string \<Rightarrow> State \<Rightarrow> Error option \<times> State" where
  "AddHost io name address hcurl s =
     (if hosts s name \<noteq> None then (Some ErrHostExists, s)
      else let (sl, s1) = appendCheck nilSlice (zeroCheckStatus\<lparr>Type := CheckPing, Enabled := True\<rparr>) s;
               s2 = setHost name \<lparr>Name = name, Address = address, Checks = sl, HCURL = hcurl\<rparr> s1;
               s3 = updateCfgHosts (\<lambda>hs. hs @ [\<lparr>cfgName = name, cfgAddress = address,
                        cfgChecks = [zeroCheck\<lparr>cfgType := CheckPing, cfgEnabled := True\<rparr>],
                        cfgHealthchecksPingURL = hcurl\<rparr>]) s2
           in saveConfigLocked io s3)"

definition AddHostWithoutDefaultCheck :: "FileOps \<Rightarrow> string \<Rightarrow> string \<Rightarrow> string \<Rightarrow> State
    \<Rightarrow> Error option \<times> State" where
  "AddHostWithoutDefaultCheck io name address hcurl s =
     (if hosts s name \<noteq> None then (Some ErrHostExists, s)
      else let s2 = setHost name \<lparr>Name = name, Address = address, Checks = nilSlice, HCURL = hcurl\<rparr> s;
               s3 = updateCfgHosts (\<lambda>hs. hs @ [\<lparr>cfgName = name, cfgAddress = address,
                        cfgChecks = [], cfgHealthchecksPingURL = hcurl\<rparr>]) s2
           in saveConfigLocked io s3)"

definition UpdateHost :: "FileOps \<Rightarrow> string \<Rightarrow> string \<Rightarrow> string \<Rightarrow> string \<Rightarrow> State
    \<Rightarrow> Error option \<times> State" where
  "UpdateHost io oldName newName address hcurl s =
     (case hosts s oldName of
        None \<Rightarrow> (Some ErrHostNotFound, s)
      | Some hs \<Rightarrow>
          if newName \<noteq> oldName \<and> hosts s newName \<noteq> None then (Some ErrHostNameExists, s)
          else let s1 = s\<lparr>hosts := ((hosts s)(oldName := None))
                             (newName \<mapsto> hs\<lparr>Name := newName, Address := address, HCURL := hcurl\<rparr>)\<rparr>;
                   s2 = updateCfgHosts (updateFirst oldName
                          (\<lambda>h. h\<lparr>cfgName := newName, cfgAddress := address,
                                  cfgHealthchecksPingURL := hcurl\<rparr>)) s1
               in saveConfigLocked io s2)"

definition DeleteHost :: "FileOps \<Rightarrow> string \<Rightarrow> State \<Rightarrow> Error option \<times> State" where
  "DeleteHost io name s =
     (if hosts s name = None then (Some ErrHostNotFound, s)
      else let s1 = s\<lparr>hosts := (hosts s)(name := None)\<rparr>;
               s2 = updateCfgHosts (removeFirst name) s1
           in saveConfigLocked io s2)"

text \<open>
  \<^verbatim>\<open>AddHTTPCheck\<close>, \<^verbatim>\<open>AddPingCheck\<close> and \<^verbatim>\<open>AddTCPCheck\<close> have one body, which differs in the
  two literals appended.
\<close>

definition addCheck :: "FileOps \<Rightarrow> string list \<Rightarrow> string \<Rightarrow> CheckStatus \<Rightarrow> Check \<Rightarrow> State
    \<Rightarrow> Error option \<times> State" where
  "addCheck io order hostName cs ck s =
     (case hosts s hostName of
        None \<Rightarrow> (Some ErrHostNotFound, s)
      | Some hs \<Rightarrow>
          let (sl, s1) = appendCheck (Checks hs) cs s;
              s2 = setHost hostName (hs\<lparr>Checks := sl\<rparr>) s1;
              s3 = updateCfgHosts (updateFirst hostName
                     (\<lambda>h. h\<lparr>cfgChecks := cfgChecks h @ [ck]\<rparr>)) s2
          in saveConfigLocked io (rebuildCheckIndex order s3))"

definition AddHTTPCheck :: "FileOps \<Rightarrow> string list \<Rightarrow> string \<Rightarrow> string \<Rightarrow> int \<Rightarrow> string \<Rightarrow> string
    \<Rightarrow> bool \<Rightarrow> State \<Rightarrow> Error option \<times> State" where
  "AddHTTPCheck io order hostName url expect cid dependsOn mqttNotify s =
     addCheck io order hostName
       (zeroCheckStatus\<lparr>Type := CheckHTTP, Enabled := True, URL := url, Expect := expect,
          ID := cid, DependsOn := dependsOn, MQTTNotify := mqttNotify\<rparr>)
       (zeroCheck\<lparr>cfgType := CheckHTTP, cfgEnabled := True, cfgURL := url, cfgExpect := expect,
          cfgID := cid, cfgDependsOn := dependsOn, cfgMQTTNotify := mqttNotify\<rparr>) s"

definition AddPingCheck :: "FileOps \<Rightarrow> string list \<Rightarrow> string \<Rightarrow> string \<Rightarrow> string \<Rightarrow> bool \<Rightarrow> State
    \<Rightarrow> Error option \<times> State" where
  "AddPingCheck io order hostName cid dependsOn mqttNotify s =
     addCheck io order hostName
       (zeroCheckStatus\<lparr>Type := CheckPing, Enabled := True,
          ID := cid, DependsOn := dependsOn, MQTTNotify := mqttNotify\<rparr>)
       (zeroCheck\<lparr>cfgType := CheckPing, cfgEnabled := True,
          cfgID := cid, cfgDependsOn := dependsOn, cfgMQTTNotify := mqttNotify\<rparr>) s"

definition AddTCPCheck :: "FileOps \<Rightarrow> string list \<Rightarrow> string \<Rightarrow> int \<Rightarrow> string \<Rightarrow> string \<Rightarrow> bool
    \<Rightarrow> State \<Rightarrow> Error option \<times> State" where
  "AddTCPCheck io order hostName port cid dependsOn mqttNotify s =
     addCheck io order hostName
       (zeroCheckStatus\<lparr>Type := CheckTCP, Enabled := True, Port := port,
          ID := cid, DependsOn := dependsOn, MQTTNotify := mqttNotify\<rparr>)
       (zeroCheck\<lparr>cfgType := CheckTCP, cfgEnabled := True, cfgPort := port,
          cfgID := cid, cfgDependsOn := dependsOn, cfgMQTTNotify := mqttNotify\<rparr>) s"

text \<open>The index \<open>idx\<close> is a Go \<^verbatim>\<open>int\<close> and may be negative.\<close>

definition badIndex :: "int \<Rightarrow> nat \<Rightarrow> bool" where
  "badIndex idx n \<longleftrightarrow> idx < 0 \<or> idx \<ge> int n"

definition RemoveCheck :: "FileOps \<Rightarrow> string \<Rightarrow> int \<Rightarrow> State \<Rightarrow> Error option \<times> State" where
  "RemoveCheck io hostName idx s =
     (case hosts s hostName of
        None \<Rightarrow> (Some ErrHostNotFound, s)
      | Some hs \<Rightarrow>
          if badIndex idx (len (Checks hs)) then (Some ErrBadIndex, s)
          else let (sl, s1) = removeAt (nat idx) (Checks hs) s;
                   s2 = setHost hostName (hs\<lparr>Checks := sl\<rparr>) s1;
                   s3 = updateCfgHosts (updateFirst hostName
                          (\<lambda>h. if badIndex idx (length (cfgChecks h)) then h
                                else h\<lparr>cfgChecks := take (nat idx) (cfgChecks h)
                                                      @ drop (Suc (nat idx)) (cfgChecks h)\<rparr>)) s2
               in saveConfigLocked io s3)"

text \<open>
  The three updates of a check in place have one body as well: a test of the type (none for
  \<^verbatim>\<open>UpdateCheckDependencies\<close>), the assignments to \<^verbatim>\<open>hs.Checks[idx]\<close> and the same assignments
  to the check of the configuration.
\<close>

definition updateCheck :: "FileOps \<Rightarrow> string list \<Rightarrow> string \<Rightarrow> int \<Rightarrow> (CheckType \<Rightarrow> Error option)
    \<Rightarrow> (CheckStatus \<Rightarrow> CheckStatus) \<Rightarrow> (Check \<Rightarrow> Check) \<Rightarrow> State \<Rightarrow> Error option \<times> State" where
  "updateCheck io order hostName idx typeTest f g s =
     (case hosts s hostName of
        None \<Rightarrow> (Some ErrHostNotFound, s)
      | Some hs \<Rightarrow>
          if badIndex idx (len (Checks hs)) then (Some ErrBadIndex, s)
          else case typeTest (Type (deref s (elemPtr (Checks hs) (nat idx)))) of
                 Some e \<Rightarrow> (Some e, s)
               | None \<Rightarrow>
                   let s1 = store (elemPtr (Checks hs) (nat idx))
                              (f (deref s (elemPtr (Checks hs) (nat idx)))) s;
                       s2 = updateCfgHosts (updateFirst hostName
                              (\<lambda>h. if badIndex idx (length (cfgChecks h)) then h
                                    else h\<lparr>cfgChecks := (cfgChecks h)[nat idx := g (cfgChecks h ! nat idx)]\<rparr>)) s1
                   in saveConfigLocked io (rebuildCheckIndex order s2))"

definition UpdateHTTPCheck :: "FileOps \<Rightarrow> string list \<Rightarrow> string \<Rightarrow> int \<Rightarrow> string \<Rightarrow> int \<Rightarrow> string
    \<Rightarrow> string \<Rightarrow> bool \<Rightarrow> State \<Rightarrow> Error option \<times> State" where
  "UpdateHTTPCheck io order hostName idx url expect cid dependsOn mqttNotify s =
     updateCheck io order hostName idx
       (\<lambda>t. if t \<noteq> CheckHTTP then Some ErrNotHTTPCheck else None)
       (\<lambda>c. c\<lparr>URL := url, Expect := expect, ID := cid, DependsOn := dependsOn,
               MQTTNotify := mqttNotify\<rparr>)
       (\<lambda>k. k\<lparr>cfgURL := url, cfgExpect := expect, cfgID := cid, cfgDependsOn := dependsOn,
               cfgMQTTNotify := mqttNotify\<rparr>) s"

definition UpdateTCPCheck :: "FileOps \<Rightarrow> string list \<Rightarrow> string \<Rightarrow> int \<Rightarrow> int \<Rightarrow> string
    \<Rightarrow> string \<Rightarrow> bool \<Rightarrow> State \<Rightarrow> Error option \<times> State" where
  "UpdateTCPCheck io order hostName idx port cid dependsOn mqttNotify s =
     updateCheck io order hostName idx
       (\<lambda>t. if t \<noteq> CheckTCP then Some ErrNotTCPCheck else None)
       (\<lambda>c. c\<lparr>Port := port, ID := cid, DependsOn := dependsOn, MQTTNotify := mqttNotify\<rparr>)
       (\<lambda>k. k\<lparr>cfgPort := port, cfgID := cid, cfgDependsOn := dependsOn,
               cfgMQTTNotify := mqttNotify\<rparr>) s"

definition UpdateCheckDependencies :: "FileOps \<Rightarrow> string list \<Rightarrow> string \<Rightarrow> int \<Rightarrow> string
    \<Rightarrow> string \<Rightarrow> bool \<Rightarrow> State \<Rightarrow> Error option \<times> State" where
  "UpdateCheckDependencies io order hostName idx cid dependsOn mqttNotify s =
     updateCheck io order hostName idx (\<lambda>t. None)
       (\<lambda>c. c\<lparr>ID := cid, DependsOn := dependsOn, MQTTNotify := mqttNotify\<rparr>)
       (\<lambda>k. k\<lparr>cfgID := cid, cfgDependsOn := dependsOn, cfgMQTTNotify := mqttNotify\<rparr>) s"

text \<open>\<^verbatim>\<open>Toggle\<close> and \<^verbatim>\<open>SetAllEnabled\<close> return nothing and write \<^verbatim>\<open>hs.Checks[i].Enabled\<close> only.\<close>

definition Toggle :: "string \<Rightarrow> int \<Rightarrow> bool \<Rightarrow> State \<Rightarrow> State" where
  "Toggle hostName idx enabled s =
     (case hosts s hostName of
        None \<Rightarrow> s
      | Some hs \<Rightarrow>
          if idx \<ge> 0 \<and> idx < int (len (Checks hs))
          then store (elemPtr (Checks hs) (nat idx))
                 ((deref s (elemPtr (Checks hs) (nat idx)))\<lparr>Enabled := enabled\<rparr>) s
          else s)"

definition setEnabledHost :: "bool \<Rightarrow> HostStatus \<Rightarrow> State \<Rightarrow> State" where
  "setEnabledHost enabled hs s =
     s\<lparr>heap := (heap s)(base (Checks hs) :=
          map (\<lambda>c. c\<lparr>Enabled := enabled\<rparr>) (take (len (Checks hs)) (heap s (base (Checks hs))))
          @ drop (len (Checks hs)) (heap s (base (Checks hs))))\<rparr>"

fun setEnabledHosts :: "bool \<Rightarrow> string list \<Rightarrow> State \<Rightarrow> State" where
  "setEnabledHosts enabled [] s = s"
| "setEnabledHosts enabled (n # ns) s =
     (case hosts s n of
        None \<Rightarrow> setEnabledHosts enabled ns s
      | Some hs \<Rightarrow> setEnabledHosts enabled ns (setEnabledHost enabled hs s))"

definition SetAllEnabled :: "string list \<Rightarrow> bool \<Rightarrow> State \<Rightarrow> State" where
  "SetAllEnabled order enabled s = setEnabledHosts enabled order s"

subsection \<open>\<^verbatim>\<open>New\<close>\<close>

definition statusOfCheck :: "Check \<Rightarrow> CheckStatus" where
  "statusOfCheck c =
     (let cs = zeroCheckStatus\<lparr>Type := cfgType c, Enabled := cfgEnabled c, ID := cfgID c,
                 DependsOn := cfgDependsOn c, MQTTNotify := cfgMQTTNotify c\<rparr>;
          cs = (if cfgType c = CheckHTTP then cs\<lparr>URL := cfgURL c, Expect := cfgExpect c\<rparr> else cs);
          cs = (if cfgType c = CheckTCP then cs\<lparr>Port := cfgPort c\<rparr> else cs)
      in cs)"

fun appendChecks :: "slice \<Rightarrow> Check list \<Rightarrow> State \<Rightarrow> slice \<times> State" where
  "appendChecks sl [] s = (sl, s)"
| "appendChecks sl (c # cs) s =
     (let (sl', s') = appendCheck sl (statusOfCheck c) s in appendChecks sl' cs s')"

fun loadHosts :: "Host list \<Rightarrow> State \<Rightarrow> State" where
  "loadHosts [] s = s"
| "loadHosts (h # hs) s =
     (let (sl, s') = appendChecks nilSlice (cfgChecks h) s
      in loadHosts hs (setHost (cfgName h)
           \<lparr>Name = cfgName h, Address = cfgAddress h, Checks = sl,
            HCURL = cfgHealthchecksPingURL h\<rparr> s'))"

text \<open>
  The state before any host is loaded: no path is bound, nothing is in memory but the empty
  array at address 0, and the event log of the package is empty.
\<close>

definition emptyState :: "Config \<Rightarrow> State" where
  "emptyState c = \<lparr>cfg = c, hosts = Map.empty, checksByID = Map.empty, configPath = [],
     heap = (\<lambda>a. []), nextAddr = 1, eventLog = [], disk = None, sent = []\<rparr>"

definition New :: "string list \<Rightarrow> Config \<Rightarrow> State" where
  "New order c = rebuildCheckIndex order (loadHosts (Hosts c) (emptyState c))"

definition SetConfigPath :: "string \<Rightarrow> State \<Rightarrow> State" where
  "SetConfigPath path s = s\<lparr>configPath := path\<rparr>"

section \<open>Analytics: the latency statistics of \<^verbatim>\<open>GetHostAnalytics\<close>\<close>

text \<open>
  The index of the 95th percentile is \<^verbatim>\<open>int(float64(len(latencies)) * 0.95)\<close>. The constant
  \<^verbatim>\<open>0.95\<close> is the double \<open>8556839292003942 / 2^53\<close>; the product of a length \<open>n < 2^53\<close> with
  it is the exact product rounded to 53 significant bits, ties to even, and the conversion to
  \<^verbatim>\<open>int\<close> drops the fraction. All of it is arithmetic on the numerator over \<open>2^53\<close>.
\<close>

function shiftTo53 :: "int \<Rightarrow> nat" where
  "shiftTo53 q = (if q < 2 ^ 53 then 0 else Suc (shiftTo53 (q div 2)))"
  by pat_completeness auto
termination
  by (relation "measure nat") auto

declare shiftTo53.simps [simp del]

definition roundTo53 :: "int \<Rightarrow> int" where
  "roundTo53 q =
     (let sh = shiftTo53 q;
          r = q div 2 ^ sh;
          rest = q mod 2 ^ sh
      in (if 2 * rest > 2 ^ sh \<or> (2 * rest = 2 ^ sh \<and> odd r) then r + 1 else r) * 2 ^ sh)"

definition p95Index :: "nat \<Rightarrow> nat" where
  "p95Index n = nat (roundTo53 (int n * 8556839292003942) div 2 ^ 53)"

text \<open>
  The part of \<^verbatim>\<open>CheckAnalytics\<close> computed from \<^verbatim>\<open>FullHistory\<close>. \<^verbatim>\<open>AvgLatency\<close> is the quotient
  of two \<^verbatim>\<open>float64\<close> conversions; it is kept as the exact quotient, which the double rounds.
\<close>

record CheckAnalytics =
  AvgLatency :: rat
  MinLatency :: int
  MaxLatency :: int
  P95Latency :: int

text \<open>The loop over \<^verbatim>\<open>c.FullHistory\<close>: sum, count, latencies, minimum and maximum so far.\<close>

fun latencyLoop :: "CheckDataPoint list \<Rightarrow> int \<times> int \<times> int list \<times> int \<times> int
    \<Rightarrow> int \<times> int \<times> int list \<times> int \<times> int" where
  "latencyLoop [] acc = acc"
| "latencyLoop (dp # dps) (sm, cnt, latencies, mn, mx) =
     (if dpOK dp \<and> dpLatencyMS dp > 0
      then latencyLoop dps
             (sm + dpLatencyMS dp, cnt + 1, latencies @ [dpLatencyMS dp],
              (if dpLatencyMS dp < mn then dpLatencyMS dp else mn),
              (if dpLatencyMS dp > mx then dpLatencyMS dp else mx))
      else latencyLoop dps (sm, cnt, latencies, mn, mx))"

definition latencyAnalytics :: "CheckStatus \<Rightarrow> CheckAnalytics" where
  "latencyAnalytics c =
     (if length (FullHistory c) > 0
      then (let (sm, cnt, latencies, mn, mx) =
                  latencyLoop (FullHistory c)
                    (0, 0, [], dpLatencyMS (FullHistory c ! 0), dpLatencyMS (FullHistory c ! 0))
            in if cnt > 0
               then \<lparr>AvgLatency = of_int sm / of_int cnt, MinLatency = mn, MaxLatency = mx,
                     P95Latency = sort latencies !
                       (if p95Index (length latencies) \<ge> length latencies
                        then length latencies - 1 else p95Index (length latencies))\<rparr>
               else \<lparr>AvgLatency = 0, MinLatency = mn, MaxLatency = mx, P95Latency = 0\<rparr>)
      else \<lparr>AvgLatency = 0, MinLatency = 0, MaxLatency = 0, P95Latency = 0\<rparr>)"

section \<open>A store to run the results on: the hosts "Internet" and "Google"\<close>

text \<open>
  The configuration of the scenario of the specification: the host "Internet" with a ping
  check of identifier \<open>internet\<close>, and the host "Google" with a ping check that depends on it.
\<close>

definition exConfig :: Config where
  "exConfig = \<lparr>Hosts =
     [\<lparr>cfgName = ''Internet'', cfgAddress = ''8.8.8.8'',
       cfgChecks = [zeroCheck\<lparr>cfgType := CheckPing, cfgEnabled := True, cfgID := ''internet''\<rparr>],
       cfgHealthchecksPingURL = []\<rparr>,
      \<lparr>cfgName = ''Google'', cfgAddress = ''google.com'',
       cfgChecks = [zeroCheck\<lparr>cfgType := CheckPing, cfgEnabled := True,
                      cfgDependsOn := ''internet''\<rparr>],
       cfgHealthchecksPingURL = []\<rparr>]\<rparr>"

definition exOrder :: "string list" where
  "exOrder = [''Internet'', ''Google'']"

definition exStore :: State where
  "exStore = New exOrder exConfig"

definition exInternet :: HostStatus where
  "exInternet = \<lparr>Name = ''Internet'', Address = ''8.8.8.8'',
     Checks = \<lparr>base = Suc 0, len = 1\<rparr>, HCURL = []\<rparr>"

definition exGoogle :: HostStatus where
  "exGoogle = \<lparr>Name = ''Google'', Address = ''google.com'',
     Checks = \<lparr>base = Suc (Suc 0), len = 1\<rparr>, HCURL = []\<rparr>"

text \<open>Three environments: every probe succeeds, every probe fails, only "Internet" answers.\<close>

definition probesUp :: Probes where
  "probesUp name i t = \<lparr>prOK = True, prCode = 200, prLatencyMS = 12, prErr = None\<rparr>"

definition probesDown :: Probes where
  "probesDown name i t = \<lparr>prOK = False, prCode = 0, prLatencyMS = 0, prErr = None\<rparr>"

definition probesInternetOnly :: Probes where
  "probesInternetOnly name i t = (if name = ''Internet'' then probesUp name i t else probesDown name i t)"

text \<open>
  The store after a pass at time 100 in which both probes succeed (\<open>exUp\<close>); in the pass at
  time 200, in which both fail, after the body of "Internet" (\<open>exInternetDown\<close>) and at its end
  (\<open>exDown\<close>: "Internet" is down, "Google" is blocked); and in the pass at time 300, in which
  only "Internet" answers, after the body of "Internet" (\<open>exInternetBack\<close>).
\<close>

definition exUp :: State where
  "exUp = evalBody probesUp 100 ''Google'' exGoogle 0 True
            (evalBody probesUp 100 ''Internet'' exInternet 0 True exStore)"

definition exInternetDown :: State where
  "exInternetDown = evalBody probesDown 200 ''Internet'' exInternet 0 True exUp"

definition exDown :: State where
  "exDown = evalBody probesDown 200 ''Google'' exGoogle 0 False exInternetDown"

definition exInternetBack :: State where
  "exInternetBack = evalBody probesInternetOnly 300 ''Internet'' exInternet 0 True exDown"

text \<open>
  A file system on which every write succeeds, and the store of the scenario bound to a path,
  after a second ping check of identifier \<open>dns\<close> was added to "Internet" (\<open>exTwoChecks\<close>) and
  after the first check of "Internet" was then removed (\<open>exRemoved\<close>).
\<close>

definition fsOK :: FileOps where
  "fsOK = \<lparr>writeTmpOK = True, renameOK = True, writeDirectOK = True\<rparr>"

definition exBound :: State where
  "exBound = SetConfigPath ''/etc/poke443/config.yaml'' exStore"

definition exTwoChecks :: State where
  "exTwoChecks = snd (AddPingCheck fsOK exOrder ''Internet'' ''dns'' [] False exBound)"

definition exRemoved :: State where
  "exRemoved = snd (RemoveCheck fsOK ''Internet'' 0 exTwoChecks)"

section \<open>Notions used to state the results\<close>

text \<open>
  \<open>failOpen s c\<close>: the resolution of \<open>c\<close> stops at once with "healthy": no dependency, an
  identifier the index does not hold, a disabled parent or a parent never evaluated.
  \<open>chainEnds n s c\<close>: following \<^verbatim>\<open>DependsOn\<close> from \<open>c\<close> reaches such a stop within \<open>n\<close> steps.
\<close>

definition failOpen :: "State \<Rightarrow> CheckStatus \<Rightarrow> bool" where
  "failOpen s c \<longleftrightarrow>
     DependsOn c = []
     \<or> (case checksByID s (DependsOn c) of
          None \<Rightarrow> True
        | Some p \<Rightarrow> \<not> Enabled (deref s p) \<or> IsZero (CheckedAt (deref s p)))"

fun chainEnds :: "nat \<Rightarrow> State \<Rightarrow> CheckStatus \<Rightarrow> bool" where
  "chainEnds 0 s c = failOpen s c"
| "chainEnds (Suc n) s c =
     (failOpen s c
      \<or> (case checksByID s (DependsOn c) of
           None \<Rightarrow> True
         | Some p \<Rightarrow> chainEnds n s (deref s p)))"

text \<open>
  The samples the latency statistics are said to be computed over: the latencies of the
  successful data points with a positive latency.
\<close>

definition goodLatencies :: "CheckDataPoint list \<Rightarrow> int list" where
  "goodLatencies fh = map dpLatencyMS (filter (\<lambda>dp. dpOK dp \<and> dpLatencyMS dp > 0) fh)"

text \<open>
  The raw outcome of the probe of a check in a pass, the \<^verbatim>\<open>actualOK\<close> of the three cases of
  \<^verbatim>\<open>runOnce\<close>, and whether the check has one of the three types that are probed.
\<close>

definition probed :: "CheckStatus \<Rightarrow> bool" where
  "probed c \<longleftrightarrow> Type c = CheckPing \<or> Type c = CheckHTTP \<or> Type c = CheckTCP"

definition rawOutcome :: "Probes \<Rightarrow> string \<Rightarrow> nat \<Rightarrow> HostStatus \<Rightarrow> CheckStatus \<Rightarrow> bool" where
  "rawOutcome probe name i hs c =
     (if Type c = CheckPing then prOK (probe name i (PingTarget (Address hs)))
      else if Type c = CheckHTTP then httpActualOK (probe name i (HTTPTarget (httpURL hs c))) c
      else prOK (probe name i (TCPTarget (Address hs) (tcpPort c))))"

text \<open>The check at position \<open>i\<close> of the host under a key, as the store holds it.\<close>

definition checkAt :: "State \<Rightarrow> string \<Rightarrow> nat \<Rightarrow> CheckStatus option" where
  "checkAt s name i =
     (case hosts s name of
        None \<Rightarrow> None
      | Some hs \<Rightarrow> if i < len (Checks hs) then Some (deref s (elemPtr (Checks hs) i)) else None)"

text \<open>A slice lies within the array it points to.\<close>

definition inCap :: "State \<Rightarrow> slice \<Rightarrow> bool" where
  "inCap s sl \<longleftrightarrow> len sl \<le> length (heap s (base sl))"

text \<open>
  The status of the check of a loop body at the end of its \<^verbatim>\<open>switch\<close>, before the tracking of
  state changes.
\<close>

definition afterSwitch :: "Probes \<Rightarrow> Time \<Rightarrow> string \<Rightarrow> HostStatus \<Rightarrow> nat \<Rightarrow> bool \<Rightarrow> CheckStatus
    \<Rightarrow> CheckStatus" where
  "afterSwitch probe now name hs i p c =
     fst (switchType probe name i hs now p
            (if DependsOn c \<noteq> [] then c\<lparr>ParentID := DependsOn c\<rparr> else c))"

text \<open>The status that the pointer returned by \<^verbatim>\<open>GetCheckByID\<close> leads to.\<close>

definition statusByID :: "State \<Rightarrow> string \<Rightarrow> CheckStatus option" where
  "statusByID s cid = map_option (deref s) (GetCheckByID s cid)"


text \<open>
  The first host of a name in a list of hosts of the configuration, and the checks that the
  file at \<^verbatim>\<open>configPath\<close> holds for a host.
\<close>

fun findHost :: "string \<Rightarrow> Host list \<Rightarrow> Host option" where
  "findHost name [] = None"
| "findHost name (h # hs) = (if cfgName h = name then Some h else findHost name hs)"

definition persistedChecks :: "State \<Rightarrow> string \<Rightarrow> Check list option" where
  "persistedChecks s name =
     (case disk s of
        None \<Rightarrow> None
      | Some cf \<Rightarrow> map_option cfgChecks (findHost name (Hosts cf)))"

text \<open>
  A call of \<^verbatim>\<open>saveConfigLocked\<close> writes the file when a path is bound and its extension is one
  of the three known ones.
\<close>

definition persistable :: "State \<Rightarrow> bool" where
  "persistable s \<longleftrightarrow>
     configPath s \<noteq> []
     \<and> (Ext (configPath s) = ''.yaml'' \<or> Ext (configPath s) = ''.yml''
        \<or> Ext (configPath s) = ''.toml'')"

text \<open>
  What the runtime status and the configuration of a check have in common, apart from
  \<^verbatim>\<open>Enabled\<close>: the type, the fields of that type (URL and expected status of an HTTP check,
  port of a TCP check; \<^verbatim>\<open>New\<close> copies no others), the identifier, the dependency and the MQTT
  flag.
\<close>

type_synonym view = "CheckType \<times> string \<times> int \<times> int \<times> string \<times> string \<times> bool"

definition statusView :: "CheckStatus \<Rightarrow> view" where
  "statusView c =
     (Type c, (if Type c = CheckHTTP then URL c else []),
      (if Type c = CheckHTTP then Expect c else 0), (if Type c = CheckTCP then Port c else 0),
      ID c, DependsOn c, MQTTNotify c)"

definition checkView :: "Check \<Rightarrow> view" where
  "checkView k =
     (cfgType k, (if cfgType k = CheckHTTP then cfgURL k else []),
      (if cfgType k = CheckHTTP then cfgExpect k else 0),
      (if cfgType k = CheckTCP then cfgPort k else 0),
      cfgID k, cfgDependsOn k, cfgMQTTNotify k)"

text \<open>
  \<open>agrees s\<close>: the configuration names each host of the store once and no other, and for
  each host the checks of the store and of the configuration are the same in number, order and
  common fields.
\<close>

definition hostNames :: "State \<Rightarrow> string list" where
  "hostNames s = map cfgName (Hosts (cfg s))"

definition sliceOf :: "State \<Rightarrow> string \<Rightarrow> slice" where
  "sliceOf s n = (case hosts s n of None \<Rightarrow> nilSlice | Some hs \<Rightarrow> Checks hs)"

definition hostAgrees :: "State \<Rightarrow> Host \<Rightarrow> bool" where
  "hostAgrees s h \<longleftrightarrow>
     map statusView (elems s (sliceOf s (cfgName h))) = map checkView (cfgChecks h)"

definition agrees :: "State \<Rightarrow> bool" where
  "agrees s \<longleftrightarrow>
     distinct (hostNames s) \<and> dom (hosts s) = set (hostNames s)
     \<and> list_all (hostAgrees s) (Hosts (cfg s))"

text \<open>
  \<open>wfStore s\<close>: the memory is as the program builds it. Address 0 holds the empty array and
  was never allocated; the slice of each host lies within its array, at an address already
  allocated; two hosts share no array, except the empty one of the nil slice.
\<close>

definition wfStore :: "State \<Rightarrow> bool" where
  "wfStore s \<longleftrightarrow>
     heap s 0 = [] \<and> 0 < nextAddr s
     \<and> list_all (\<lambda>n. inCap s (sliceOf s n) \<and> base (sliceOf s n) < nextAddr s) (hostNames s)
     \<and> distinct (filter (\<lambda>a. a \<noteq> 0) (map (\<lambda>n. base (sliceOf s n)) (hostNames s)))"

definition consistent :: "State \<Rightarrow> bool" where
  "consistent s \<longleftrightarrow> agrees s \<and> wfStore s"

text \<open>The mutating operations of the store as one type, to state a result for all of them.\<close>

datatype Mutation =
    MAddHost string string string
  | MAddHostWithoutDefaultCheck string string string
  | MUpdateHost string string string string
  | MDeleteHost string
  | MAddHTTPCheck string string int string string bool
  | MAddPingCheck string string string bool
  | MAddTCPCheck string int string string bool
  | MRemoveCheck string int
  | MUpdateHTTPCheck string int string int string string bool
  | MUpdateTCPCheck string int int string string bool
  | MUpdateCheckDependencies string int string string bool
  | MToggle string int bool
  | MSetAllEnabled bool

fun applyMutation :: "FileOps \<Rightarrow> string list \<Rightarrow> Mutation \<Rightarrow> State \<Rightarrow> Error option \<times> State" where
  "applyMutation io order (MAddHost n a u) s = AddHost io n a u s"
| "applyMutation io order (MAddHostWithoutDefaultCheck n a u) s = AddHostWithoutDefaultCheck io n a u s"
| "applyMutation io order (MUpdateHost old new a u) s = UpdateHost io old new a u s"
| "applyMutation io order (MDeleteHost n) s = DeleteHost io n s"
| "applyMutation io order (MAddHTTPCheck n url e cid dep mq) s = AddHTTPCheck io order n url e cid dep mq s"
| "applyMutation io order (MAddPingCheck n cid dep mq) s = AddPingCheck io order n cid dep mq s"
| "applyMutation io order (MAddTCPCheck n p cid dep mq) s = AddTCPCheck io order n p cid dep mq s"
| "applyMutation io order (MRemoveCheck n idx) s = RemoveCheck io n idx s"
| "applyMutation io order (MUpdateHTTPCheck n idx url e cid dep mq) s =
     UpdateHTTPCheck io order n idx url e cid dep mq s"
| "applyMutation io order (MUpdateTCPCheck n idx p cid dep mq) s =
     UpdateTCPCheck io order n idx p cid dep mq s"
| "applyMutation io order (MUpdateCheckDependencies n idx cid dep mq) s =
     UpdateCheckDependencies io order n idx cid dep mq s"
| "applyMutation io order (MToggle n idx en) s = (None, Toggle n idx en s)"
| "applyMutation io order (MSetAllEnabled en) s = (None, SetAllEnabled order en s)"

fun writesEnabledOnly :: "Mutation \<Rightarrow> bool" where
  "writesEnabledOnly (MToggle n idx en) = True"
| "writesEnabledOnly (MSetAllEnabled en) = True"
| "writesEnabledOnly m = False"

text \<open>
  A run of mutating operations, each with the outcome of its file operations and the order in
  which it visits the hosts.
\<close>

fun runMutations :: "(FileOps \<times> string list \<times> Mutation) list \<Rightarrow> State \<Rightarrow> State" where
  "runMutations [] s = s"
| "runMutations ((io, order, m) # ms) s = runMutations ms (snd (applyMutation io order m s))"

section \<open>Rolling histories and lifetime counters\<close>

lemma lastn_step:
  assumes "length xs \<le> k"
  shows "(if length (xs @ [x]) > k then tl (xs @ [x]) else xs @ [x]) = lastn k (xs @ [x])"
proof (cases "length xs = k")
  case True
  have d: "Suc k - k = Suc 0" by arith
  show ?thesis
  proof (cases xs)
    case Nil
    then show ?thesis using True by (simp add: lastn_def)
  next
    case (Cons a l)
    then show ?thesis using True d by (auto simp: lastn_def)
  qed
next
  case False
  then have "length xs < k" using assms by simp
  then show ?thesis by (simp add: lastn_def)
qed

lemma lastn_length: "length (lastn k xs) = min k (length xs)"
  by (auto simp: lastn_def)

lemma lastn_snoc:
  assumes "0 < k"
  shows "lastn k (lastn k xs @ [x]) = lastn k (xs @ [x])"
proof (cases "length xs \<le> k")
  case True
  then show ?thesis by (simp add: lastn_def)
next
  case False
  then have "Suc (length xs) - (length xs - k + k) = Suc 0" "Suc (length xs) - k = Suc (length xs - k)"
    by arith+
  then show ?thesis using assms by (simp add: lastn_def)
qed

lemma lastn_id: "length xs \<le> k \<Longrightarrow> lastn k xs = xs"
  by (simp add: lastn_def)

lemma recordAll_snoc:
  "recordAll (evs @ [e]) c = recordDataPoint (fst e) (evOK e) (evLatency e) (recordAll evs c)"
  by (simp add: recordAll_def)

lemma recordAll_LatencyHistory:
  "length (LatencyHistory c) \<le> 20 \<Longrightarrow>
   LatencyHistory (recordAll evs c) = lastn 20 (LatencyHistory c @ map evLatency evs)"
proof (induction evs rule: rev_induct)
  case Nil
  then show ?case by (simp add: recordAll_def lastn_id)
next
  case (snoc e evs)
  have len: "length (LatencyHistory (recordAll evs c)) \<le> 20"
    using snoc by (simp add: lastn_length)
  have "LatencyHistory (recordAll (evs @ [e]) c)
        = lastn 20 (LatencyHistory (recordAll evs c) @ [evLatency e])"
    using lastn_step [OF len, of "evLatency e"]
    by (simp add: recordAll_snoc recordDataPoint_def Let_def maxLatencyHistory_def)
  also have "\<dots> = lastn 20 (LatencyHistory c @ map evLatency (evs @ [e]))"
    using snoc by (simp add: lastn_snoc)
  finally show ?case .
qed

lemma recordAll_FullHistory:
  "length (FullHistory c) \<le> 1000 \<Longrightarrow>
   FullHistory (recordAll evs c) = lastn 1000 (FullHistory c @ map evPoint evs)"
proof (induction evs rule: rev_induct)
  case Nil
  then show ?case by (simp add: recordAll_def lastn_id)
next
  case (snoc e evs)
  have len: "length (FullHistory (recordAll evs c)) \<le> 1000"
    using snoc by (simp add: lastn_length)
  have "FullHistory (recordAll (evs @ [e]) c)
        = lastn 1000 (FullHistory (recordAll evs c) @ [evPoint e])"
    unfolding evPoint_def
    using lastn_step [OF len, of "\<lparr>dpTimestamp = fst e, dpOK = evOK e, dpLatencyMS = evLatency e\<rparr>"]
    by (simp add: recordAll_snoc recordDataPoint_def Let_def maxFullHistory_def)
  also have "\<dots> = lastn 1000 (FullHistory c @ map evPoint (evs @ [e]))"
    using snoc by (simp add: lastn_snoc)
  finally show ?case .
qed

lemma recordAll_TotalChecks:
  "TotalChecks (recordAll evs c) = TotalChecks c + of_nat (length evs)"
  by (induction evs rule: rev_induct)
     (simp_all add: recordAll_snoc recordDataPoint_def Let_def, simp add: recordAll_def)

lemma recordAll_SuccessChecks:
  "SuccessChecks (recordAll evs c) = SuccessChecks c + of_nat (length (filter evOK evs))"
  by (induction evs rule: rev_induct)
     (simp_all add: recordAll_snoc recordDataPoint_def Let_def, simp add: recordAll_def)

lemma sint_of_nat_64:
  "sint (of_nat n :: 64 word) = (int n + 2 ^ 63) mod 2 ^ 64 - 2 ^ 63"
proof -
  have "sint (of_nat n :: 64 word) = sint (word_of_int (int n) :: 64 word)" by simp
  also have "\<dots> = (int n + 2 ^ 63) mod 2 ^ 64 - 2 ^ 63"
    by (simp only: int_word_sint) simp
  finally show ?thesis .
qed

lemma sint_of_nat_64_small:
  assumes "n < 2 ^ 63"
  shows "sint (of_nat n :: 64 word) = int n"
proof -
  have "int n < int (2 ^ 63)" using assms by (simp only: of_nat_less_iff)
  then have b: "int n < 2 ^ 63" by simp
  have "(int n + 2 ^ 63) mod 2 ^ 64 = int n + 2 ^ 63"
    using b by (intro mod_pos_pos_trivial) simp_all
  then show ?thesis by (simp add: sint_of_nat_64)
qed

text \<open>
  Claim C4. Starting from histories within their caps, after any run of recorded evaluations
  \<^verbatim>\<open>LatencyHistory\<close> is the most recent 20 latencies and \<^verbatim>\<open>FullHistory\<close> the most recent 1000
  data points (the oldest are the ones dropped), so their lengths stay within 20 and 1000; the
  lifetime counters grow by the number of evaluations and of successes, whatever was evicted.
  From empty histories and zero counters, 1001 successful evaluations leave exactly the last
  1000 data points, \<^verbatim>\<open>TotalChecks = 1001\<close> and \<^verbatim>\<open>SuccessChecks = 1001\<close>.
\<close>

theorem history_caps_and_lifetime_counters:
  assumes "length (LatencyHistory c) \<le> maxLatencyHistory"
    and "length (FullHistory c) \<le> maxFullHistory"
  shows "LatencyHistory (recordAll evs c)
           = lastn maxLatencyHistory (LatencyHistory c @ map evLatency evs)
       \<and> FullHistory (recordAll evs c)
           = lastn maxFullHistory (FullHistory c @ map evPoint evs)
       \<and> length (LatencyHistory (recordAll evs c)) \<le> 20
       \<and> length (FullHistory (recordAll evs c)) \<le> 1000
       \<and> TotalChecks (recordAll evs c) = TotalChecks c + of_nat (length evs)
       \<and> SuccessChecks (recordAll evs c)
           = SuccessChecks c + of_nat (length (filter evOK evs))
       \<and> (LatencyHistory c = [] \<and> FullHistory c = [] \<and> TotalChecks c = 0
            \<and> SuccessChecks c = 0 \<and> length evs = 1001 \<and> (\<forall>e \<in> set evs. evOK e)
          \<longrightarrow> FullHistory (recordAll evs c) = map evPoint (tl evs)
            \<and> length (FullHistory (recordAll evs c)) = 1000
            \<and> TotalChecks (recordAll evs c) = 1001
            \<and> SuccessChecks (recordAll evs c) = 1001)"
proof -
  have lh: "LatencyHistory (recordAll evs c)
           = lastn maxLatencyHistory (LatencyHistory c @ map evLatency evs)"
    using assms(1) by (simp add: maxLatencyHistory_def recordAll_LatencyHistory)
  have fh: "FullHistory (recordAll evs c)
           = lastn maxFullHistory (FullHistory c @ map evPoint evs)"
    using assms(2) by (simp add: maxFullHistory_def recordAll_FullHistory)
  have l1: "length (LatencyHistory (recordAll evs c)) \<le> 20"
    by (simp add: lh lastn_length maxLatencyHistory_def)
  have l2: "length (FullHistory (recordAll evs c)) \<le> 1000"
    by (simp add: fh lastn_length maxFullHistory_def)
  have sc: "LatencyHistory c = [] \<and> FullHistory c = [] \<and> TotalChecks c = 0
            \<and> SuccessChecks c = 0 \<and> length evs = 1001 \<and> (\<forall>e \<in> set evs. evOK e)
          \<longrightarrow> FullHistory (recordAll evs c) = map evPoint (tl evs)
            \<and> length (FullHistory (recordAll evs c)) = 1000
            \<and> TotalChecks (recordAll evs c) = 1001
            \<and> SuccessChecks (recordAll evs c) = 1001"
  proof (intro impI, elim conjE)
    assume e: "FullHistory c = []" "TotalChecks c = 0" "SuccessChecks c = 0"
      "length evs = 1001" "\<forall>e \<in> set evs. evOK e"
    have f: "filter evOK evs = evs" using e(5) by simp
    have "FullHistory (recordAll evs c) = drop (Suc 0) (map evPoint evs)"
      using e(1,4) by (simp add: fh lastn_def maxFullHistory_def)
    then have a: "FullHistory (recordAll evs c) = map evPoint (tl evs)"
      by (simp add: drop_Suc map_tl)
    have b: "length (FullHistory (recordAll evs c)) = 1000"
      using e(4) by (simp add: a)
    show "FullHistory (recordAll evs c) = map evPoint (tl evs)
            \<and> length (FullHistory (recordAll evs c)) = 1000
            \<and> TotalChecks (recordAll evs c) = 1001
            \<and> SuccessChecks (recordAll evs c) = 1001"
      using a b e(2,3,4) by (simp add: recordAll_TotalChecks recordAll_SuccessChecks f)
  qed
  show ?thesis
    using lh fh l1 l2 sc recordAll_TotalChecks [of evs c] recordAll_SuccessChecks [of evs c]
    by blast
qed

text \<open>The run of claim C4's scenario: 1001 successful evaluations of a fresh check.\<close>

theorem history_caps_and_lifetime_counters_witness:
  "length (LatencyHistory (recordAll (replicate 1001 (7, True, 5)) zeroCheckStatus)) \<le> 20
   \<and> length (FullHistory (recordAll (replicate 1001 (7, True, 5)) zeroCheckStatus)) = 1000
   \<and> TotalChecks (recordAll (replicate 1001 (7, True, 5)) zeroCheckStatus) = 1001
   \<and> SuccessChecks (recordAll (replicate 1001 (7, True, 5)) zeroCheckStatus) = 1001"
proof -
  have h1: "length (LatencyHistory zeroCheckStatus) \<le> maxLatencyHistory"
    and h2: "length (FullHistory zeroCheckStatus) \<le> maxFullHistory"
    by (simp_all add: zeroCheckStatus_def)
  have pre: "LatencyHistory zeroCheckStatus = [] \<and> FullHistory zeroCheckStatus = []
      \<and> TotalChecks zeroCheckStatus = 0 \<and> SuccessChecks zeroCheckStatus = 0
      \<and> length (replicate 1001 (7::int, True, 5::int)) = 1001
      \<and> (\<forall>e \<in> set (replicate 1001 (7::int, True, 5::int)). evOK e)"
    by (simp add: zeroCheckStatus_def evOK_def)
  show ?thesis
    using history_caps_and_lifetime_counters [OF h1 h2, of "replicate 1001 (7, True, 5)"] pre
    by blast
qed

text \<open>
  Claim C9, amended. In every state reached from zero counters by fewer than \<open>2^63 - 1\<close>
  recorded evaluations, \<open>0 \<le> SuccessChecks \<le> TotalChecks\<close> as signed 64-bit values, and one
  more recorded evaluation adds exactly one to \<^verbatim>\<open>TotalChecks\<close> and adds one to \<^verbatim>\<open>SuccessChecks\<close>
  exactly when the recorded outcome is a success; so neither counter decreases there.
\<close>

theorem lifetime_counters_before_wrap:
  assumes "TotalChecks c = 0" and "SuccessChecks c = 0" and "length evs < 2 ^ 63 - 1"
  shows "0 \<le> sint (SuccessChecks (recordAll evs c))
       \<and> sint (SuccessChecks (recordAll evs c)) \<le> sint (TotalChecks (recordAll evs c))
       \<and> sint (TotalChecks (recordDataPoint ts ok lat (recordAll evs c)))
           = sint (TotalChecks (recordAll evs c)) + 1
       \<and> sint (SuccessChecks (recordDataPoint ts ok lat (recordAll evs c)))
           = sint (SuccessChecks (recordAll evs c)) + (if ok then 1 else 0)"
proof -
  let ?k = "length (filter evOK evs)"
  have k: "?k \<le> length evs" by simp
  have n1: "length evs < 2 ^ 63" "Suc (length evs) < 2 ^ 63" using assms(3) by simp_all
  have k1: "?k < 2 ^ 63" "Suc ?k < 2 ^ 63" using k n1 by linarith+
  have t: "sint (TotalChecks (recordAll evs c)) = int (length evs)"
    using assms(1) n1(1) by (simp add: recordAll_TotalChecks sint_of_nat_64_small)
  have s: "sint (SuccessChecks (recordAll evs c)) = int ?k"
    using assms(2) k1(1) by (simp add: recordAll_SuccessChecks sint_of_nat_64_small)
  have "TotalChecks (recordDataPoint ts ok lat (recordAll evs c)) = of_nat (Suc (length evs))"
    using assms(1) by (simp add: recordDataPoint_def Let_def recordAll_TotalChecks)
  then have t': "sint (TotalChecks (recordDataPoint ts ok lat (recordAll evs c)))
                 = int (Suc (length evs))"
    using n1(2) by (simp only: sint_of_nat_64_small)
  have "SuccessChecks (recordDataPoint ts ok lat (recordAll evs c))
        = of_nat (if ok then Suc ?k else ?k)"
    using assms(2) by (simp add: recordDataPoint_def Let_def recordAll_SuccessChecks)
  then have s': "sint (SuccessChecks (recordDataPoint ts ok lat (recordAll evs c)))
                 = int (if ok then Suc ?k else ?k)"
    using k1 by (cases ok) (simp_all only: sint_of_nat_64_small if_True if_False)
  show ?thesis using t s t' s' k by (simp split: if_splits)
qed

text \<open>Two evaluations, one of them a success, followed by a third.\<close>

theorem lifetime_counters_before_wrap_witness:
  "sint (TotalChecks (recordDataPoint 9 True 5 (recordAll [(7, True, 5), (8, False, 0)] zeroCheckStatus)))
     = sint (TotalChecks (recordAll [(7, True, 5), (8, False, 0)] zeroCheckStatus)) + 1
   \<and> sint (SuccessChecks (recordAll [(7, True, 5), (8, False, 0)] zeroCheckStatus)) = 1
   \<and> sint (TotalChecks (recordAll [(7, True, 5), (8, False, 0)] zeroCheckStatus)) = 2"
  using lifetime_counters_before_wrap
          [of zeroCheckStatus "[(7, True, 5), (8, False, 0)]" 9 True 5]
  by (simp add: zeroCheckStatus_def recordAll_def recordDataPoint_def evOK_def evLatency_def
        maxLatencyHistory_def maxFullHistory_def)

text \<open>
  Claim C9 as stated fails at the end of the \<^verbatim>\<open>int64\<close> range: the evaluation after the
  \<open>2^63 - 1\<close>-th wraps \<^verbatim>\<open>TotalChecks\<close> to \<open>- 2^63\<close>, below its value before.
\<close>

theorem lifetime_counter_wraps_counterexample:
  "sint (TotalChecks (recordDataPoint 9 True 5
            (recordAll (replicate (2 ^ 63 - 1) (7, True, 5)) zeroCheckStatus)))
   < sint (TotalChecks (recordAll (replicate (2 ^ 63 - 1) (7, True, 5)) zeroCheckStatus))"
proof -
  let ?c = "recordAll (replicate (2 ^ 63 - 1) (7, True, 5)) zeroCheckStatus"
  have z: "TotalChecks zeroCheckStatus = 0" by (simp add: zeroCheckStatus_def)
  have a: "TotalChecks ?c = of_nat (2 ^ 63 - 1)"
    unfolding recordAll_TotalChecks length_replicate z by (rule add_0_left)
  have b: "TotalChecks (recordDataPoint 9 True 5 ?c) = of_nat (2 ^ 63)"
  proof -
    have "TotalChecks (recordDataPoint 9 True 5 ?c) = TotalChecks ?c + 1"
      by (simp add: recordDataPoint_def Let_def)
    also have "\<dots> = of_nat (Suc (2 ^ 63 - 1))" unfolding a by simp
    also have "Suc (2 ^ 63 - 1) = (2 ^ 63 :: nat)" by simp
    finally show ?thesis .
  qed
  have "sint (TotalChecks ?c) = 2 ^ 63 - 1"
    unfolding a sint_of_nat_64 by simp
  moreover have "sint (TotalChecks (recordDataPoint 9 True 5 ?c)) = - (2 ^ 63)"
    unfolding b sint_of_nat_64 by simp
  ultimately show ?thesis by simp
qed

section \<open>The loop body of the evaluation pass\<close>

lemma recordDataPoint_fields [simp]:
  "OK (recordDataPoint ts ok l c) = OK c"
  "ParentFailed (recordDataPoint ts ok l c) = ParentFailed c"
  "CheckedAt (recordDataPoint ts ok l c) = CheckedAt c"
  "LastDownAt (recordDataPoint ts ok l c) = LastDownAt c"
  "LastUpAt (recordDataPoint ts ok l c) = LastUpAt c"
  "Type (recordDataPoint ts ok l c) = Type c"
  "MQTTNotify (recordDataPoint ts ok l c) = MQTTNotify c"
  "Message (recordDataPoint ts ok l c) = Message c"
  "Expect (recordDataPoint ts ok l c) = Expect c"
  "Enabled (recordDataPoint ts ok l c) = Enabled c"
  "ID (recordDataPoint ts ok l c) = ID c"
  "DependsOn (recordDataPoint ts ok l c) = DependsOn c"
  "TotalChecks (recordDataPoint ts ok l c) = TotalChecks c + 1"
  "SuccessChecks (recordDataPoint ts ok l c) = (if ok then SuccessChecks c + 1 else SuccessChecks c)"
  by (simp_all add: recordDataPoint_def Let_def)

lemma last_capped:
  "0 < k \<Longrightarrow> last (if length (xs @ [x]) > k then tl (xs @ [x]) else xs @ [x]) = x"
  by (cases xs) auto

lemma recordDataPoint_last:
  "FullHistory (recordDataPoint ts ok l c) \<noteq> []"
  "last (FullHistory (recordDataPoint ts ok l c)) = \<lparr>dpTimestamp = ts, dpOK = ok, dpLatencyMS = l\<rparr>"
proof -
  let ?fh = "FullHistory c @ [\<lparr>dpTimestamp = ts, dpOK = ok, dpLatencyMS = l\<rparr>]"
  have eq: "FullHistory (recordDataPoint ts ok l c)
        = (if length ?fh > maxFullHistory then tl ?fh else ?fh)"
    by (simp add: recordDataPoint_def Let_def)
  show "last (FullHistory (recordDataPoint ts ok l c)) = \<lparr>dpTimestamp = ts, dpOK = ok, dpLatencyMS = l\<rparr>"
    unfolding eq by (rule last_capped) (simp add: maxFullHistory_def)
  show "FullHistory (recordDataPoint ts ok l c) \<noteq> []"
    unfolding eq by (cases "FullHistory c") (simp_all add: maxFullHistory_def)
qed


lemma httpActualOK_ParentID [simp]:
  "httpActualOK res (c\<lparr>ParentID := x\<rparr>) = httpActualOK res c"
  unfolding httpActualOK_def by simp

lemma rawOutcome_ParentID [simp]:
  "rawOutcome probe name i hs (c\<lparr>ParentID := x\<rparr>) = rawOutcome probe name i hs c"
  by (simp add: rawOutcome_def httpURL_def tcpPort_def)

lemma probed_ParentID [simp]: "probed (c\<lparr>ParentID := x\<rparr>) = probed c"
  by (simp add: probed_def)

lemma distinct_types [simp]:
  "CheckPing \<noteq> CheckHTTP" "CheckPing \<noteq> CheckTCP" "CheckHTTP \<noteq> CheckTCP"
  "CheckHTTP \<noteq> CheckPing" "CheckTCP \<noteq> CheckPing" "CheckTCP \<noteq> CheckHTTP"
  by (simp_all add: CheckPing_def CheckHTTP_def CheckTCP_def)

lemma httpActualOK_CheckedAt [simp]:
  "httpActualOK res (c\<lparr>CheckedAt := x\<rparr>) = httpActualOK res c"
  unfolding httpActualOK_def by simp

lemma casePing_fields:
  "OK (fst (casePing res hs now p c)) = prOK res"
  "ParentFailed (fst (casePing res hs now p c)) = (\<not> prOK res \<and> \<not> p)"
  "CheckedAt (fst (casePing res hs now p c)) = now"
  "LastDownAt (fst (casePing res hs now p c)) = LastDownAt c"
  "LastUpAt (fst (casePing res hs now p c)) = LastUpAt c"
  "Type (fst (casePing res hs now p c)) = Type c"
  "TotalChecks (fst (casePing res hs now p c)) = TotalChecks c + 1"
  "SuccessChecks (fst (casePing res hs now p c)) = (if prOK res then SuccessChecks c + 1 else SuccessChecks c)"
  "FullHistory (fst (casePing res hs now p c)) \<noteq> []"
  "dpOK (last (FullHistory (fst (casePing res hs now p c)))) = prOK res"
  by (simp_all add: casePing_def Let_def recordDataPoint_last)


lemma caseTCP_fields:
  "OK (fst (caseTCP res port hs now p c)) = prOK res"
  "ParentFailed (fst (caseTCP res port hs now p c)) = (\<not> prOK res \<and> \<not> p)"
  "CheckedAt (fst (caseTCP res port hs now p c)) = now"
  "LastDownAt (fst (caseTCP res port hs now p c)) = LastDownAt c"
  "LastUpAt (fst (caseTCP res port hs now p c)) = LastUpAt c"
  "Type (fst (caseTCP res port hs now p c)) = Type c"
  "TotalChecks (fst (caseTCP res port hs now p c)) = TotalChecks c + 1"
  "SuccessChecks (fst (caseTCP res port hs now p c)) = (if prOK res then SuccessChecks c + 1 else SuccessChecks c)"
  "FullHistory (fst (caseTCP res port hs now p c)) \<noteq> []"
  "dpOK (last (FullHistory (fst (caseTCP res port hs now p c)))) = prOK res"
  by (simp_all add: caseTCP_def Let_def recordDataPoint_last)

lemma caseHTTP_fields:
  "OK (fst (caseHTTP res hs now p c)) = httpActualOK res c"
  "ParentFailed (fst (caseHTTP res hs now p c)) = (\<not> httpActualOK res c \<and> \<not> p)"
  "CheckedAt (fst (caseHTTP res hs now p c)) = now"
  "LastDownAt (fst (caseHTTP res hs now p c)) = LastDownAt c"
  "LastUpAt (fst (caseHTTP res hs now p c)) = LastUpAt c"
  "Type (fst (caseHTTP res hs now p c)) = Type c"
  "TotalChecks (fst (caseHTTP res hs now p c)) = TotalChecks c + 1"
  "SuccessChecks (fst (caseHTTP res hs now p c)) = (if httpActualOK res c then SuccessChecks c + 1 else SuccessChecks c)"
  "FullHistory (fst (caseHTTP res hs now p c)) \<noteq> []"
  "dpOK (last (FullHistory (fst (caseHTTP res hs now p c)))) = httpActualOK res c"
  by (simp_all add: caseHTTP_def Let_def recordDataPoint_last)

lemma switchType_fields:
  assumes "probed c"
  shows "OK (fst (switchType probe name i hs now p c)) = rawOutcome probe name i hs c"
    and "ParentFailed (fst (switchType probe name i hs now p c))
          = (\<not> rawOutcome probe name i hs c \<and> \<not> p)"
    and "CheckedAt (fst (switchType probe name i hs now p c)) = now"
    and "TotalChecks (fst (switchType probe name i hs now p c)) = TotalChecks c + 1"
    and "SuccessChecks (fst (switchType probe name i hs now p c))
          = (if rawOutcome probe name i hs c then SuccessChecks c + 1 else SuccessChecks c)"
    and "FullHistory (fst (switchType probe name i hs now p c)) \<noteq> []"
    and "dpOK (last (FullHistory (fst (switchType probe name i hs now p c))))
          = rawOutcome probe name i hs c"
proof -
  consider "Type c = CheckPing" | "Type c = CheckHTTP" | "Type c = CheckTCP"
    using assms by (auto simp: probed_def)
  then have "OK (fst (switchType probe name i hs now p c)) = rawOutcome probe name i hs c
    \<and> ParentFailed (fst (switchType probe name i hs now p c))
          = (\<not> rawOutcome probe name i hs c \<and> \<not> p)
    \<and> CheckedAt (fst (switchType probe name i hs now p c)) = now
    \<and> TotalChecks (fst (switchType probe name i hs now p c)) = TotalChecks c + 1
    \<and> SuccessChecks (fst (switchType probe name i hs now p c))
          = (if rawOutcome probe name i hs c then SuccessChecks c + 1 else SuccessChecks c)
    \<and> FullHistory (fst (switchType probe name i hs now p c)) \<noteq> []
    \<and> dpOK (last (FullHistory (fst (switchType probe name i hs now p c))))
          = rawOutcome probe name i hs c"
  proof cases
    case 1
    then show ?thesis by (simp add: switchType_def rawOutcome_def casePing_fields)
  next
    case 2
    then show ?thesis by (simp add: switchType_def rawOutcome_def caseHTTP_fields)
  next
    case 3
    then show ?thesis by (simp add: switchType_def rawOutcome_def caseTCP_fields)
  qed
  then show "OK (fst (switchType probe name i hs now p c)) = rawOutcome probe name i hs c"
    and "ParentFailed (fst (switchType probe name i hs now p c))
          = (\<not> rawOutcome probe name i hs c \<and> \<not> p)"
    and "CheckedAt (fst (switchType probe name i hs now p c)) = now"
    and "TotalChecks (fst (switchType probe name i hs now p c)) = TotalChecks c + 1"
    and "SuccessChecks (fst (switchType probe name i hs now p c))
          = (if rawOutcome probe name i hs c then SuccessChecks c + 1 else SuccessChecks c)"
    and "FullHistory (fst (switchType probe name i hs now p c)) \<noteq> []"
    and "dpOK (last (FullHistory (fst (switchType probe name i hs now p c))))
          = rawOutcome probe name i hs c"
    by blast+
qed

lemma switchType_frame:
  "LastDownAt (fst (switchType probe name i hs now p c)) = LastDownAt c"
  "LastUpAt (fst (switchType probe name i hs now p c)) = LastUpAt c"
  "Type (fst (switchType probe name i hs now p c)) = Type c"
  by (simp_all add: switchType_def casePing_fields caseHTTP_fields caseTCP_fields)


lemma eventLog_frame [simp]:
  "eventLog (store q c s) = eventLog s"
  "eventLog (notify out s) = eventLog s"
  "eventLog (publishMQTTStateChange hs c st s) = eventLog s"
  "eventLog (logEvent e (notify out s)) = eventLog (logEvent e s)"
  by (simp_all add: store_def notify_def publishMQTTStateChange_def logEvent_def)

lemma hosts_frame [simp]:
  "hosts (store q c s) = hosts s"
  "hosts (notify out s) = hosts s"
  "hosts (publishMQTTStateChange hs c st s) = hosts s"
  "hosts (logEvent e s) = hosts s"
  by (simp_all add: store_def notify_def publishMQTTStateChange_def logEvent_def)

lemma heap_frame [simp]:
  "heap (notify out s) = heap s"
  "heap (publishMQTTStateChange hs c st s) = heap s"
  "heap (logEvent e s) = heap s"
  by (simp_all add: notify_def publishMQTTStateChange_def logEvent_def)

lemma deref_store:
  "snd q < length (heap s (fst q)) \<Longrightarrow> deref (store q c s) q = c"
  by (simp add: deref_def store_def)

lemma track_fields:
  "OK (fst (trackStateChange now hs i wc wo wpf c s)) = OK c"
  "ParentFailed (fst (trackStateChange now hs i wc wo wpf c s)) = ParentFailed c"
  "FullHistory (fst (trackStateChange now hs i wc wo wpf c s)) = FullHistory c"
  "TotalChecks (fst (trackStateChange now hs i wc wo wpf c s)) = TotalChecks c"
  "SuccessChecks (fst (trackStateChange now hs i wc wo wpf c s)) = SuccessChecks c"
  "Type (fst (trackStateChange now hs i wc wo wpf c s)) = Type c"
  "Message (fst (trackStateChange now hs i wc wo wpf c s)) = Message c"
  by (simp_all add: trackStateChange_def Let_def)

lemma track_heap_hosts [simp]:
  "heap (snd (trackStateChange now hs i wc wo wpf c s)) = heap s"
  "hosts (snd (trackStateChange now hs i wc wo wpf c s)) = hosts s"
  by (simp_all add: trackStateChange_def Let_def)





lemma evalBody_alt:
  "evalBody probe now name hs i p s =
     (let c = deref s (elemPtr (Checks hs) i);
          t = trackStateChange now hs i (\<not> IsZero (CheckedAt c)) (OK c) (ParentFailed c)
                (afterSwitch probe now name hs i p c)
                (notify (snd (switchType probe name i hs now p
                   (if DependsOn c \<noteq> [] then c\<lparr>ParentID := DependsOn c\<rparr> else c))) s)
      in store (elemPtr (Checks hs) i) (fst t) (snd t))"
  by (simp add: evalBody_def afterSwitch_def Let_def case_prod_beta)


lemma afterSwitch_fields:
  assumes "probed c"
  shows "OK (afterSwitch probe now name hs i p c) = rawOutcome probe name i hs c"
    and "ParentFailed (afterSwitch probe now name hs i p c)
          = (\<not> rawOutcome probe name i hs c \<and> \<not> p)"
    and "TotalChecks (afterSwitch probe now name hs i p c) = TotalChecks c + 1"
    and "SuccessChecks (afterSwitch probe now name hs i p c)
          = (if rawOutcome probe name i hs c then SuccessChecks c + 1 else SuccessChecks c)"
    and "FullHistory (afterSwitch probe now name hs i p c) \<noteq> []"
    and "dpOK (last (FullHistory (afterSwitch probe now name hs i p c)))
          = rawOutcome probe name i hs c"
    and "LastDownAt (afterSwitch probe now name hs i p c) = LastDownAt c"
    and "Type (afterSwitch probe now name hs i p c) = Type c"
  using assms by (simp_all add: afterSwitch_def switchType_fields switchType_frame)

lemma evalCheck_result:
  assumes h: "hosts s name = Some hs" and i: "i < len (Checks hs)" and cap: "inCap s (Checks hs)"
    and c: "c = deref s (elemPtr (Checks hs) i)" and en: "Enabled c"
    and par: "IsParentOK s c = Some p"
  shows "\<exists>s' out. evalCheck probe now name i s = Some s'
     \<and> checkAt s' name i
         = Some (fst (trackStateChange now hs i (\<not> IsZero (CheckedAt c)) (OK c) (ParentFailed c)
                   (afterSwitch probe now name hs i p c) (notify out s)))
     \<and> eventLog s'
         = eventLog (snd (trackStateChange now hs i (\<not> IsZero (CheckedAt c)) (OK c) (ParentFailed c)
                   (afterSwitch probe now name hs i p c) (notify out s)))"
proof -
  let ?q = "elemPtr (Checks hs) i"
  let ?out = "snd (switchType probe name i hs now p
                   (if DependsOn c \<noteq> [] then c\<lparr>ParentID := DependsOn c\<rparr> else c))"
  let ?t = "trackStateChange now hs i (\<not> IsZero (CheckedAt c)) (OK c) (ParentFailed c)
                   (afterSwitch probe now name hs i p c) (notify ?out s)"
  have ev: "evalCheck probe now name i s = Some (evalBody probe now name hs i p s)"
    using h en par c by (simp add: evalCheck_def)
  have body: "evalBody probe now name hs i p s = store ?q (fst ?t) (snd ?t)"
    using c by (simp add: evalBody_alt Let_def)
  have rng: "snd ?q < length (heap (snd ?t) (fst ?q))"
    using i cap by (simp add: elemPtr_def inCap_def)
  have "checkAt (store ?q (fst ?t) (snd ?t)) name i = Some (fst ?t)"
    using h i deref_store [OF rng] by (simp add: checkAt_def)
  moreover have "eventLog (store ?q (fst ?t) (snd ?t)) = eventLog (snd ?t)" by simp
  ultimately show ?thesis using ev body by metis
qed

section \<open>The store of the scenario\<close>

text \<open>The definitions that running the scenario unfolds, and the two passes that reach its stores.\<close>

lemmas ex_defs = exStore_def exOrder_def exConfig_def exInternet_def exGoogle_def
  probesUp_def probesDown_def probesInternetOnly_def
  New_def emptyState_def rebuildCheckIndex_def setHost_def appendCheck_def nilSlice_def
  statusOfCheck_def growCap_def elems_def zeroCheck_def zeroCheckStatus_def
  CheckPing_def CheckHTTP_def CheckTCP_def Let_def

lemmas run_defs = evalBody_def switchType_def casePing_def
  trackStateChange_def elemPtr_def deref_def store_def notify_def logEvent_def downEvent_def
  recoveredEvent_def publishMQTTStateChange_def recordDataPoint_def IsZero_def Sub_def
  maxLatencyHistory_def maxFullHistory_def maxEvents_def minDuration_def maxDuration_def

lemmas ex_states = exInternetBack_def exDown_def exInternetDown_def exUp_def

lemmas ex_all = ex_states ex_defs run_defs inCap_def probed_def rawOutcome_def

lemma exUp_reached: "runOnce probesUp 100 exOrder exStore = Some exUp"
  by (simp add: runOnce_def evalCheck_def exUp_def ex_defs run_defs IsParentOK.simps)

lemma exDown_reached: "runOnce probesDown 200 exOrder exUp = Some exDown"
  by (simp add: runOnce_def evalCheck_def ex_states ex_defs run_defs IsParentOK.simps)


section \<open>Dependency resolution\<close>

lemma IsParentOK_failOpen: "failOpen s c \<Longrightarrow> IsParentOK s c = Some True"
  by (subst IsParentOK.simps) (auto simp: failOpen_def split: option.splits)

lemma IsParentOK_step:
  assumes "DependsOn c \<noteq> []" and "checksByID s (DependsOn c) = Some p"
    and "Enabled (deref s p)" and "\<not> IsZero (CheckedAt (deref s p))"
  shows "IsParentOK s c = map_option (\<lambda>r. OK (deref s p) \<and> r) (IsParentOK s (deref s p))"
proof -
  have "IsParentOK s c = Option.bind (IsParentOK s (deref s p))
                      (\<lambda>r. if \<not> r then Some False else Some (OK (deref s p)))"
    by (subst IsParentOK.simps) (simp add: assms)
  then show ?thesis by (cases "IsParentOK s (deref s p)") auto
qed

lemma IsParentOK_returns: "chainEnds n s c \<Longrightarrow> \<exists>b. IsParentOK s c = Some b"
proof (induction n arbitrary: c)
  case 0
  then have "IsParentOK s c = Some True" by (simp add: IsParentOK_failOpen)
  then show ?case by blast
next
  case (Suc n)
  show ?case
  proof (cases "failOpen s c")
    case True
    then have "IsParentOK s c = Some True" by (simp add: IsParentOK_failOpen)
    then show ?thesis by blast
  next
    case False
    then obtain p where p: "DependsOn c \<noteq> []" "checksByID s (DependsOn c) = Some p"
      "Enabled (deref s p)" "\<not> IsZero (CheckedAt (deref s p))"
      by (auto simp: failOpen_def split: option.splits)
    with Suc.prems False have "chainEnds n s (deref s p)" by simp
    then obtain b where "IsParentOK s (deref s p) = Some b" using Suc.IH by blast
    then show ?thesis by (simp add: IsParentOK_step [OF p])
  qed
qed

lemma IsParentOK_self_cycle:
  assumes "DependsOn c \<noteq> []" and "checksByID s (DependsOn c) = Some p" and "deref s p = c"
    and "Enabled c" and "\<not> IsZero (CheckedAt c)"
  shows "IsParentOK s c = None"
proof (rule ccontr)
  assume "IsParentOK s c \<noteq> None"
  then obtain b where b: "IsParentOK s c = Some b" by auto
  have "\<not> (s = s \<and> c = c)"
  proof (rule IsParentOK.raw_induct [where P = "\<lambda>s' c' b'. \<not> (s' = s \<and> c' = c)", OF _ b])
    fix f :: "State \<Rightarrow> CheckStatus \<Rightarrow> bool option" and s' :: State and c' :: CheckStatus and b' :: bool
    assume ih: "\<And>s'' c'' y. f s'' c'' = Some y \<Longrightarrow> \<not> (s'' = s \<and> c'' = c)"
      and eq: "(if DependsOn c' = [] then Some True
      else case checksByID s' (DependsOn c') of None \<Rightarrow> Some True
           | Some p \<Rightarrow>
               if \<not> Enabled (deref s' p) then Some True
               else if IsZero (CheckedAt (deref s' p)) then Some True
                    else Option.bind (f s' (deref s' p))
                          (\<lambda>r. if \<not> r then Some False
                               else Some (OK (deref s' p)))) = Some b'"
    show "\<not> (s' = s \<and> c' = c)"
    proof
      assume "s' = s \<and> c' = c"
      with eq assms obtain r where "f s c = Some r"
        by (auto simp: bind_eq_Some_conv)
      with ih show False by blast
    qed
  qed
  then show False by simp
qed

text \<open>
  Claim C3. \<^verbatim>\<open>IsParentOK\<close> returns true when \<^verbatim>\<open>DependsOn\<close> is empty, when the index does not
  hold the identifier, when the parent is disabled and when the parent was never evaluated
  (\<^verbatim>\<open>CheckedAt\<close> zero). Otherwise its result is that of the recursive call for the parent
  conjoined with \<^verbatim>\<open>parent.OK\<close> (and it returns exactly when that call returns). It returns
  whenever the chain of dependencies reaches one of the four stops.
\<close>

theorem parent_resolution_fails_open:
  "(DependsOn c = [] \<longrightarrow> IsParentOK s c = Some True)
   \<and> (checksByID s (DependsOn c) = None \<longrightarrow> IsParentOK s c = Some True)
   \<and> (\<forall>p. checksByID s (DependsOn c) = Some p \<and> \<not> Enabled (deref s p)
          \<longrightarrow> IsParentOK s c = Some True)
   \<and> (\<forall>p. checksByID s (DependsOn c) = Some p \<and> IsZero (CheckedAt (deref s p))
          \<longrightarrow> IsParentOK s c = Some True)
   \<and> (\<forall>p. DependsOn c \<noteq> [] \<and> checksByID s (DependsOn c) = Some p
          \<and> Enabled (deref s p) \<and> \<not> IsZero (CheckedAt (deref s p))
          \<longrightarrow> IsParentOK s c
              = map_option (\<lambda>r. OK (deref s p) \<and> r) (IsParentOK s (deref s p)))
   \<and> (\<forall>n. chainEnds n s c \<longrightarrow> (\<exists>b. IsParentOK s c = Some b))"
proof -
  have 1: "DependsOn c = [] \<longrightarrow> IsParentOK s c = Some True"
    by (simp add: IsParentOK_failOpen failOpen_def)
  have 2: "checksByID s (DependsOn c) = None \<longrightarrow> IsParentOK s c = Some True"
    by (simp add: IsParentOK_failOpen failOpen_def)
  have 3: "\<forall>p. checksByID s (DependsOn c) = Some p \<and> \<not> Enabled (deref s p)
          \<longrightarrow> IsParentOK s c = Some True"
    by (simp add: IsParentOK_failOpen failOpen_def)
  have 4: "\<forall>p. checksByID s (DependsOn c) = Some p \<and> IsZero (CheckedAt (deref s p))
          \<longrightarrow> IsParentOK s c = Some True"
    by (simp add: IsParentOK_failOpen failOpen_def)
  have 5: "\<forall>p. DependsOn c \<noteq> [] \<and> checksByID s (DependsOn c) = Some p
          \<and> Enabled (deref s p) \<and> \<not> IsZero (CheckedAt (deref s p))
          \<longrightarrow> IsParentOK s c
              = map_option (\<lambda>r. OK (deref s p) \<and> r) (IsParentOK s (deref s p))"
    using IsParentOK_step by blast
  have 6: "\<forall>n. chainEnds n s c \<longrightarrow> (\<exists>b. IsParentOK s c = Some b)"
    using IsParentOK_returns by blast
  show ?thesis using 1 2 3 4 5 6 by blast
qed

text \<open>
  The four stops and the recursive case on the stores of the scenario: no dependency, an
  unknown identifier, a parent not yet evaluated, a disabled parent, a healthy parent and a
  parent that is down.
\<close>

theorem parent_resolution_fails_open_witness:
  "IsParentOK exStore (deref exStore (Suc 0, 0)) = Some True
   \<and> IsParentOK exStore ((deref exStore (Suc 0, 0))\<lparr>DependsOn := ''missing''\<rparr>) = Some True
   \<and> IsParentOK exStore (deref exStore (Suc (Suc 0), 0)) = Some True
   \<and> IsParentOK (Toggle ''Internet'' 0 False exUp) (deref exUp (Suc (Suc 0), 0)) = Some True
   \<and> IsParentOK exUp (deref exUp (Suc (Suc 0), 0)) = Some True
   \<and> IsParentOK exInternetDown (deref exInternetDown (Suc (Suc 0), 0)) = Some False"
proof -
  let ?i0 = "deref exStore (Suc 0, 0)" and ?g0 = "deref exStore (Suc (Suc 0), 0)"
  have a: "DependsOn ?i0 = []" by (simp add: ex_all)
  have A: "IsParentOK exStore ?i0 = Some True"
    using parent_resolution_fails_open [of ?i0 exStore] a by blast
  have b: "checksByID exStore (DependsOn (?i0\<lparr>DependsOn := ''missing''\<rparr>)) = None"
    by (simp add: ex_all)
  have B: "IsParentOK exStore (?i0\<lparr>DependsOn := ''missing''\<rparr>) = Some True"
    using parent_resolution_fails_open [of "?i0\<lparr>DependsOn := ''missing''\<rparr>" exStore] b by blast
  have c: "checksByID exStore (DependsOn ?g0) = Some (Suc 0, 0)"
    "IsZero (CheckedAt (deref exStore (Suc 0, 0)))"
    by (simp_all add: ex_all)
  have C: "IsParentOK exStore ?g0 = Some True"
    using parent_resolution_fails_open [of ?g0 exStore] c by blast
  let ?t = "Toggle ''Internet'' 0 False exUp" and ?g1 = "deref exUp (Suc (Suc 0), 0)"
  have d: "checksByID ?t (DependsOn ?g1) = Some (Suc 0, 0)" "\<not> Enabled (deref ?t (Suc 0, 0))"
    by (simp_all add: Toggle_def ex_all)
  have D: "IsParentOK ?t ?g1 = Some True"
    using parent_resolution_fails_open [of ?g1 ?t] d by blast
  let ?i1 = "deref exUp (Suc 0, 0)"
  have e: "DependsOn ?g1 \<noteq> []" "checksByID exUp (DependsOn ?g1) = Some (Suc 0, 0)"
    "Enabled ?i1" "\<not> IsZero (CheckedAt ?i1)" "OK ?i1" "DependsOn ?i1 = []"
    by (simp_all add: ex_all)
  have "IsParentOK exUp ?i1 = Some True"
    using parent_resolution_fails_open [of ?i1 exUp] e(6) by blast
  moreover have "IsParentOK exUp ?g1 = map_option (\<lambda>r. OK ?i1 \<and> r) (IsParentOK exUp ?i1)"
    using parent_resolution_fails_open [of ?g1 exUp] e(1,2,3,4) by blast
  ultimately have E: "IsParentOK exUp ?g1 = Some True" using e(5) by simp
  let ?i2 = "deref exInternetDown (Suc 0, 0)" and ?g2 = "deref exInternetDown (Suc (Suc 0), 0)"
  have f: "DependsOn ?g2 \<noteq> []" "checksByID exInternetDown (DependsOn ?g2) = Some (Suc 0, 0)"
    "Enabled ?i2" "\<not> IsZero (CheckedAt ?i2)" "\<not> OK ?i2" "DependsOn ?i2 = []"
    by (simp_all add: ex_all)
  have "IsParentOK exInternetDown ?i2 = Some True"
    using parent_resolution_fails_open [of ?i2 exInternetDown] f(6) by blast
  moreover have "IsParentOK exInternetDown ?g2
      = map_option (\<lambda>r. OK ?i2 \<and> r) (IsParentOK exInternetDown ?i2)"
    using parent_resolution_fails_open [of ?g2 exInternetDown] f(1,2,3,4) by blast
  ultimately have F: "IsParentOK exInternetDown ?g2 = Some False" using f(5) by simp
  show ?thesis using A B C D E F by blast
qed

text \<open>Two checks that depend on each other: the resolution does not return.\<close>

lemma IsParentOK_cycle_example:
  "IsParentOK (exUp\<lparr>checksByID := [''internet'' \<mapsto> (Suc 0, 0)],
                    heap := (heap exUp)(Suc 0 := [(deref exUp (Suc 0, 0))\<lparr>DependsOn := ''internet''\<rparr>])\<rparr>)
     ((deref exUp (Suc 0, 0))\<lparr>DependsOn := ''internet''\<rparr>) = None"
  by (rule IsParentOK_self_cycle [where p = "(Suc 0, 0)"]) (simp_all add: ex_all)

section \<open>Transitions and events of one evaluation\<close>



text \<open>
  Claim C6. Two evaluations of the same check, with the same probes, in two stores in which
  the dependency resolution returns any two values \<open>p1\<close> and \<open>p2\<close>: the data point appended
  carries in both the raw outcome of the probe, \<^verbatim>\<open>TotalChecks\<close> grows by one in both and
  \<^verbatim>\<open>SuccessChecks\<close> grows in both by one exactly when the raw outcome is a success.
\<close>

theorem analytics_ignore_parent_health:
  assumes "hosts s1 name = Some hs1" and "hosts s2 name = Some hs2"
    and "Address hs1 = Address hs2"
    and "i < len (Checks hs1)" and "i < len (Checks hs2)"
    and "inCap s1 (Checks hs1)" and "inCap s2 (Checks hs2)"
    and "c = deref s1 (elemPtr (Checks hs1) i)" and "c = deref s2 (elemPtr (Checks hs2) i)"
    and "Enabled c" and "probed c"
    and "IsParentOK s1 c = Some p1" and "IsParentOK s2 c = Some p2"
  shows "\<exists>s1' s2' c1 c2.
       evalCheck probe now name i s1 = Some s1' \<and> checkAt s1' name i = Some c1
     \<and> evalCheck probe now name i s2 = Some s2' \<and> checkAt s2' name i = Some c2
     \<and> FullHistory c1 \<noteq> [] \<and> FullHistory c2 \<noteq> []
     \<and> dpOK (last (FullHistory c1)) = rawOutcome probe name i hs1 c
     \<and> dpOK (last (FullHistory c2)) = rawOutcome probe name i hs1 c
     \<and> TotalChecks c1 = TotalChecks c + 1 \<and> TotalChecks c2 = TotalChecks c + 1
     \<and> SuccessChecks c1 = (if rawOutcome probe name i hs1 c then SuccessChecks c + 1
                            else SuccessChecks c)
     \<and> SuccessChecks c2 = SuccessChecks c1"
proof -
  have same: "rawOutcome probe name i hs2 c = rawOutcome probe name i hs1 c"
    using assms(3) by (simp add: rawOutcome_def httpURL_def)
  obtain s1' o1 where ev1: "evalCheck probe now name i s1 = Some s1'"
    and ck1: "checkAt s1' name i
         = Some (fst (trackStateChange now hs1 i (\<not> IsZero (CheckedAt c)) (OK c) (ParentFailed c)
                   (afterSwitch probe now name hs1 i p1 c) (notify o1 s1)))"
    using evalCheck_result [OF assms(1,4,6,8,10,12)] by blast
  obtain s2' o2 where ev2: "evalCheck probe now name i s2 = Some s2'"
    and ck2: "checkAt s2' name i
         = Some (fst (trackStateChange now hs2 i (\<not> IsZero (CheckedAt c)) (OK c) (ParentFailed c)
                   (afterSwitch probe now name hs2 i p2 c) (notify o2 s2)))"
    using evalCheck_result [OF assms(2,5,7,9,10,13)] by blast
  note a1 = afterSwitch_fields [OF assms(11), where probe = probe and now = now and name = name and hs = hs1 and i = i and p = p1]
  note a2 = afterSwitch_fields [OF assms(11), where probe = probe and now = now and name = name and hs = hs2 and i = i and p = p2]
  let ?c1 = "fst (trackStateChange now hs1 i (\<not> IsZero (CheckedAt c)) (OK c) (ParentFailed c)
                   (afterSwitch probe now name hs1 i p1 c) (notify o1 s1))"
  let ?c2 = "fst (trackStateChange now hs2 i (\<not> IsZero (CheckedAt c)) (OK c) (ParentFailed c)
                   (afterSwitch probe now name hs2 i p2 c) (notify o2 s2))"
  have f1: "FullHistory ?c1 \<noteq> []"
    and f2: "FullHistory ?c2 \<noteq> []"
    and f3: "dpOK (last (FullHistory ?c1)) = rawOutcome probe name i hs1 c"
    and f4: "dpOK (last (FullHistory ?c2)) = rawOutcome probe name i hs1 c"
    and f5: "TotalChecks ?c1 = TotalChecks c + 1"
    and f6: "TotalChecks ?c2 = TotalChecks c + 1"
    and f7: "SuccessChecks ?c1 = (if rawOutcome probe name i hs1 c then SuccessChecks c + 1
                            else SuccessChecks c)"
    and f8: "SuccessChecks ?c2 = SuccessChecks ?c1"
    by (simp_all add: track_fields a1 a2 same)
  show ?thesis
    using ev1 ck1 ev2 ck2 f1 f2 f3 f4 f5 f6 f7 f8 by blast
qed

section \<open>The results on the scenario\<close>



text \<open>
  In the scenario: the failing probe of "Google" at time 200, evaluated while "Internet" is
  still up and evaluated after "Internet" went down, is recorded alike.
\<close>

theorem analytics_ignore_parent_health_witness:
  "\<exists>s1' s2' c1 c2.
       evalCheck probesDown 200 ''Google'' 0 exUp = Some s1' \<and> checkAt s1' ''Google'' 0 = Some c1
     \<and> evalCheck probesDown 200 ''Google'' 0 exInternetDown = Some s2'
     \<and> checkAt s2' ''Google'' 0 = Some c2
     \<and> \<not> ParentFailed c1 \<and> ParentFailed c2
     \<and> \<not> dpOK (last (FullHistory c1)) \<and> \<not> dpOK (last (FullHistory c2))
     \<and> TotalChecks c1 = 2 \<and> TotalChecks c2 = 2 \<and> SuccessChecks c1 = 1 \<and> SuccessChecks c2 = 1"
proof -
  let ?c = "deref exUp (elemPtr (Checks exGoogle) 0)"
  have h: "hosts exUp ''Google'' = Some exGoogle" "hosts exInternetDown ''Google'' = Some exGoogle"
    "Address exGoogle = Address exGoogle"
    "0 < len (Checks exGoogle)" "0 < len (Checks exGoogle)"
    "inCap exUp (Checks exGoogle)" "inCap exInternetDown (Checks exGoogle)"
    "?c = deref exUp (elemPtr (Checks exGoogle) 0)"
    "?c = deref exInternetDown (elemPtr (Checks exGoogle) 0)"
    "Enabled ?c" "probed ?c"
    "IsParentOK exUp ?c = Some True" "IsParentOK exInternetDown ?c = Some False"
    by (simp_all add: ex_all IsParentOK.simps)
  have a: "\<not> rawOutcome probesDown ''Google'' 0 exGoogle ?c" "TotalChecks ?c = 1"
    "SuccessChecks ?c = 1"
    by (simp_all add: ex_all)
  obtain s1' s2' c1 c2 where r:
    "evalCheck probesDown 200 ''Google'' 0 exUp = Some s1'" "checkAt s1' ''Google'' 0 = Some c1"
    "evalCheck probesDown 200 ''Google'' 0 exInternetDown = Some s2'"
    "checkAt s2' ''Google'' 0 = Some c2"
    "\<not> dpOK (last (FullHistory c1))" "\<not> dpOK (last (FullHistory c2))"
    "TotalChecks c1 = 2" "TotalChecks c2 = 2" "SuccessChecks c1 = 1" "SuccessChecks c2 = 1"
    using analytics_ignore_parent_health [OF h, where probe = probesDown and now = 200] a
    by auto
  have "s1' = evalBody probesDown 200 ''Google'' exGoogle 0 True exUp"
    using r(1) h(1,10,12) by (simp add: evalCheck_def)
  then have p1: "\<not> ParentFailed c1"
    using r(2) by (auto simp: checkAt_def ex_all)
  have "s2' = evalBody probesDown 200 ''Google'' exGoogle 0 False exInternetDown"
    using r(3) h(2,9,10,13) by (simp add: evalCheck_def)
  then have p2: "ParentFailed c2"
    using r(4) by (auto simp: checkAt_def ex_all)
  show ?thesis using r p1 p2 by blast
qed

section \<open>Latency statistics\<close>

lemma latencyLoop_good:
  "latencyLoop fh (sm, cnt, ls, mn, mx)
     = (sm + sum_list (goodLatencies fh), cnt + int (length (goodLatencies fh)),
        ls @ goodLatencies fh,
        fold min (goodLatencies fh) mn, fold max (goodLatencies fh) mx)"
proof (induction fh arbitrary: sm cnt ls mn mx)
  case Nil
  then show ?case by (simp add: goodLatencies_def)
next
  case (Cons dp fh)
  show ?case
  proof (cases "dpOK dp \<and> dpLatencyMS dp > 0")
    case True
    then show ?thesis
      using Cons [of "sm + dpLatencyMS dp" "cnt + 1" "ls @ [dpLatencyMS dp]"
          "if dpLatencyMS dp < mn then dpLatencyMS dp else mn"
          "if dpLatencyMS dp > mx then dpLatencyMS dp else mx"]
      by (auto simp: goodLatencies_def min_def max_def)
  next
    case False
    then show ?thesis using Cons [of sm cnt ls mn mx] by (auto simp: goodLatencies_def)
  qed
qed

text \<open>
  What the loop computes when there is at least one successful sample of positive latency:
  the average and the 95th percentile range over those samples only, while the minimum and the
  maximum start from the latency of the first data point of the history, whatever its outcome.
\<close>

lemma latencyAnalytics_over_good_samples:
  assumes "goodLatencies (FullHistory c) \<noteq> []"
  shows "AvgLatency (latencyAnalytics c)
           = of_int (sum_list (goodLatencies (FullHistory c)))
             / of_int (int (length (goodLatencies (FullHistory c))))"
    and "P95Latency (latencyAnalytics c)
           = sort (goodLatencies (FullHistory c))
             ! (if p95Index (length (goodLatencies (FullHistory c)))
                     \<ge> length (goodLatencies (FullHistory c))
                then length (goodLatencies (FullHistory c)) - 1
                else p95Index (length (goodLatencies (FullHistory c))))"
    and "MinLatency (latencyAnalytics c)
           = fold min (goodLatencies (FullHistory c)) (dpLatencyMS (FullHistory c ! 0))"
    and "MaxLatency (latencyAnalytics c)
           = fold max (goodLatencies (FullHistory c)) (dpLatencyMS (FullHistory c ! 0))"
proof -
  have ne: "FullHistory c \<noteq> []" using assms by (auto simp: goodLatencies_def)
  have pos: "0 < int (length (goodLatencies (FullHistory c)))" using assms by simp
  show "AvgLatency (latencyAnalytics c)
           = of_int (sum_list (goodLatencies (FullHistory c)))
             / of_int (int (length (goodLatencies (FullHistory c))))"
    and "P95Latency (latencyAnalytics c)
           = sort (goodLatencies (FullHistory c))
             ! (if p95Index (length (goodLatencies (FullHistory c)))
                     \<ge> length (goodLatencies (FullHistory c))
                then length (goodLatencies (FullHistory c)) - 1
                else p95Index (length (goodLatencies (FullHistory c))))"
    and "MinLatency (latencyAnalytics c)
           = fold min (goodLatencies (FullHistory c)) (dpLatencyMS (FullHistory c ! 0))"
    and "MaxLatency (latencyAnalytics c)
           = fold max (goodLatencies (FullHistory c)) (dpLatencyMS (FullHistory c ! 0))"
    using ne pos assms by (simp_all add: latencyAnalytics_def latencyLoop_good)
qed

lemmas rec_defs = recordAll_def recordDataPoint_def zeroCheckStatus_def evOK_def evLatency_def
  maxLatencyHistory_def maxFullHistory_def Let_def

text \<open>
  Claim C7 says that \<^verbatim>\<open>MinLatency\<close> and \<^verbatim>\<open>MaxLatency\<close>, like the average and the percentile,
  are computed over the successful samples of positive latency only. The code seeds both with
  \<^verbatim>\<open>FullHistory[0].LatencyMS\<close> before it filters: a history that starts with a failed ping
  (latency 0) followed by a success of 12 ms has the minimum 0, and a history that starts with
  a failed HTTP check that took 900 ms followed by a success of 40 ms has the maximum 900.
\<close>

theorem min_max_latency_seeded_by_first_sample:
  "goodLatencies (FullHistory (recordAll [(100, False, 0), (200, True, 12)] zeroCheckStatus)) = [12]
   \<and> MinLatency (latencyAnalytics (recordAll [(100, False, 0), (200, True, 12)] zeroCheckStatus)) = 0
   \<and> goodLatencies (FullHistory (recordAll [(100, False, 900), (200, True, 40)] zeroCheckStatus)) = [40]
   \<and> MaxLatency (latencyAnalytics (recordAll [(100, False, 900), (200, True, 40)] zeroCheckStatus)) = 900"
  by (simp add: latencyAnalytics_def goodLatencies_def rec_defs)

text \<open>
  The percentile index on some lengths, where it is \<open>\<lfloor>0.95 * n\<rfloor>\<close>.
\<close>

lemma p95Index_examples:
  "p95Index 1 = 0" "p95Index 20 = 19" "p95Index 100 = 95" "p95Index 1000 = 950"
  by (simp_all add: p95Index_def roundTo53_def Let_def shiftTo53.simps)

section \<open>The operations of the store and the index\<close>

lemmas op_defs = AddPingCheck_def AddHTTPCheck_def AddTCPCheck_def addCheck_def RemoveCheck_def
  DeleteHost_def saveConfigLocked_def updateCfgHosts_def syncHost_def removeAt_def badIndex_def
  Ext_def fsOK_def SetConfigPath_def exBound_def GetCheckByID_def statusByID_def

lemma save_frame [simp]:
  "heap (snd (saveConfigLocked io s)) = heap s"
  "hosts (snd (saveConfigLocked io s)) = hosts s"
  "checksByID (snd (saveConfigLocked io s)) = checksByID s"
  "nextAddr (snd (saveConfigLocked io s)) = nextAddr s"
  "configPath (snd (saveConfigLocked io s)) = configPath s"
  "eventLog (snd (saveConfigLocked io s)) = eventLog s"
  by (simp_all add: saveConfigLocked_def Let_def)

lemma updateCfgHosts_frame [simp]:
  "heap (updateCfgHosts f s) = heap s"
  "hosts (updateCfgHosts f s) = hosts s"
  "checksByID (updateCfgHosts f s) = checksByID s"
  "nextAddr (updateCfgHosts f s) = nextAddr s"
  "configPath (updateCfgHosts f s) = configPath s"
  "disk (updateCfgHosts f s) = disk s"
  "cfg (updateCfgHosts f s) = (cfg s)\<lparr>Hosts := f (Hosts (cfg s))\<rparr>"
  by (simp_all add: updateCfgHosts_def)

lemma setHost_frame [simp]:
  "heap (setHost n h s) = heap s"
  "hosts (setHost n h s) = (hosts s)(n \<mapsto> h)"
  "checksByID (setHost n h s) = checksByID s"
  "nextAddr (setHost n h s) = nextAddr s"
  "configPath (setHost n h s) = configPath s"
  "disk (setHost n h s) = disk s"
  "cfg (setHost n h s) = cfg s"
  by (simp_all add: setHost_def)

lemma rebuild_frame [simp]:
  "heap (rebuildCheckIndex order s) = heap s"
  "hosts (rebuildCheckIndex order s) = hosts s"
  "nextAddr (rebuildCheckIndex order s) = nextAddr s"
  "configPath (rebuildCheckIndex order s) = configPath s"
  "disk (rebuildCheckIndex order s) = disk s"
  "cfg (rebuildCheckIndex order s) = cfg s"
  by (simp_all add: rebuildCheckIndex_def)

lemma removeAt_frame [simp]:
  "hosts (snd (removeAt i sl s)) = hosts s"
  "checksByID (snd (removeAt i sl s)) = checksByID s"
  "nextAddr (snd (removeAt i sl s)) = nextAddr s"
  "configPath (snd (removeAt i sl s)) = configPath s"
  "disk (snd (removeAt i sl s)) = disk s"
  "cfg (snd (removeAt i sl s)) = cfg s"
  "fst (removeAt i sl s) = sl\<lparr>len := len sl - 1\<rparr>"
  by (simp_all add: removeAt_def)

lemma removeAt_heap:
  "heap (snd (removeAt i sl s)) a =
     (if a = base sl
      then take i (heap s a) @ take (len sl - Suc i) (drop (Suc i) (heap s a))
           @ drop (len sl - 1) (heap s a)
      else heap s a)"
  by (simp add: removeAt_def)


lemma take_exact: "length xs = k \<Longrightarrow> take k (xs @ ys) = xs"
  by simp

lemma removeAt_elems:
  assumes "i < len sl" and "inCap s sl"
  shows "elems (snd (removeAt i sl s)) (fst (removeAt i sl s))
         = take i (elems s sl) @ drop (Suc i) (elems s sl)"
proof -
  let ?arr = "heap s (base sl)"
  have n: "len sl \<le> length ?arr" using assms(2) by (simp add: inCap_def)
  let ?A = "take i ?arr" and ?B = "take (len sl - Suc i) (drop (Suc i) ?arr)"
  have la: "length ?A = i" using n assms(1) by simp
  have lb: "length ?B = len sl - Suc i" using n assms(1) by simp
  have lab: "length (?A @ ?B) = len sl - 1" using la lb assms(1) by simp
  have "take (len sl - 1) ((?A @ ?B) @ drop (len sl - 1) ?arr) = ?A @ ?B"
    by (rule take_exact [OF lab])
  then have "take (len sl - 1) (take i ?arr @ take (len sl - Suc i) (drop (Suc i) ?arr)
          @ drop (len sl - 1) ?arr)
        = take i ?arr @ take (len sl - Suc i) (drop (Suc i) ?arr)"
    by simp
  moreover have "drop (Suc i) (take (len sl) ?arr) = take (len sl - Suc i) (drop (Suc i) ?arr)"
    by (simp add: drop_take)
  moreover have "take i (take (len sl) ?arr) = take i ?arr" using assms(1) by (simp add: min_def)
  ultimately show ?thesis by (simp add: elems_def removeAt_heap)
qed










lemmas ex_ops = exRemoved_def exTwoChecks_def op_defs ex_all



section \<open>Appending a check and saving the configuration\<close>

lemma appendCheck_frame [simp]:
  "hosts (snd (appendCheck sl c s)) = hosts s"
  "checksByID (snd (appendCheck sl c s)) = checksByID s"
  "configPath (snd (appendCheck sl c s)) = configPath s"
  "disk (snd (appendCheck sl c s)) = disk s"
  "cfg (snd (appendCheck sl c s)) = cfg s"
  "len (fst (appendCheck sl c s)) = Suc (len sl)"
  by (simp_all add: appendCheck_def)

lemma appendCheck_elems:
  assumes "inCap s sl"
  shows "elems (snd (appendCheck sl c s)) (fst (appendCheck sl c s)) = elems s sl @ [c]"
proof (cases "len sl < length (heap s (base sl))")
  case True
  then show ?thesis
    by (simp add: appendCheck_def elems_def take_Suc_conv_app_nth)
next
  case False
  then have "len sl = length (heap s (base sl))" using assms by (simp add: inCap_def)
  then show ?thesis by (simp add: appendCheck_def elems_def)
qed

lemma elems_nth: "i < len sl \<Longrightarrow> deref s (elemPtr sl i) = elems s sl ! i"
  by (simp add: deref_def elemPtr_def elems_def)

lemma appendCheck_new:
  assumes "inCap s sl"
  shows "deref (snd (appendCheck sl c s)) (elemPtr (fst (appendCheck sl c s)) (len sl)) = c"
proof -
  have "length (elems s sl) = len sl" using assms by (simp add: elems_def inCap_def)
  then show ?thesis
    by (simp add: elems_nth appendCheck_elems [OF assms] nth_append)
qed

lemma findHost_updateFirst:
  "findHost name (updateFirst name f hs)
     = map_option f (findHost name hs)" if "\<And>h. cfgName (f h) = cfgName h"
  using that by (induction hs) auto

lemma syncChecks_Expect [simp]: "map cfgExpect (syncChecks cks rs) = map cfgExpect cks"
  by (induction cks rs rule: syncChecks.induct) auto

lemma syncHost_name [simp]: "cfgName (syncHost s h) = cfgName h"
  by (simp add: syncHost_def split: option.splits)

lemma syncHost_Expect [simp]:
  "map cfgExpect (cfgChecks (syncHost s h)) = map cfgExpect (cfgChecks h)"
  by (simp add: syncHost_def split: option.splits)

lemma findHost_map_sync:
  "findHost name (map (syncHost s) hs) = map_option (syncHost s) (findHost name hs)"
  by (induction hs) auto

lemma save_cfg:
  "Hosts (cfg (snd (saveConfigLocked io s)))
     = (if configPath s = [] then Hosts (cfg s) else map (syncHost s) (Hosts (cfg s)))"
  by (simp add: saveConfigLocked_def Let_def)

lemma save_disk:
  "persistable s \<Longrightarrow> fst (saveConfigLocked io s) = None
     \<Longrightarrow> disk (snd (saveConfigLocked io s)) = Some (cfg (snd (saveConfigLocked io s)))"
  by (auto simp: saveConfigLocked_def persistable_def Let_def split: if_splits)

lemma save_expects:
  "map_option (\<lambda>h. map cfgExpect (cfgChecks h))
       (findHost name (Hosts (cfg (snd (saveConfigLocked io s)))))
   = map_option (\<lambda>h. map cfgExpect (cfgChecks h)) (findHost name (Hosts (cfg s)))"
  by (simp add: save_cfg findHost_map_sync option.map_comp comp_def)

lemma persistable_frame [simp]:
  "persistable (rebuildCheckIndex order s) = persistable s"
  "persistable (updateCfgHosts f s) = persistable s"
  "persistable (setHost n h s) = persistable s"
  "persistable (snd (appendCheck sl c s)) = persistable s"
  "persistable (snd (removeAt i sl s)) = persistable s"
  by (simp_all add: persistable_def)

lemma addCheck_result:
  assumes "hosts s hostName = Some hs"
  shows "addCheck io order hostName cs ck s
         = saveConfigLocked io (rebuildCheckIndex order
             (updateCfgHosts (updateFirst hostName (\<lambda>h. h\<lparr>cfgChecks := cfgChecks h @ [ck]\<rparr>))
               (setHost hostName (hs\<lparr>Checks := fst (appendCheck (Checks hs) cs s)\<rparr>)
                  (snd (appendCheck (Checks hs) cs s)))))"
  using assms by (simp add: addCheck_def Let_def case_prod_beta)

section \<open>An HTTP check added without an expected status\<close>

text \<open>
  Claim C8, amended. \<^verbatim>\<open>AddHTTPCheck\<close> with \<open>expect = 0\<close> on an existing host appends an HTTP
  check whose stored expected status is 0. An evaluation of that check succeeds exactly on a
  response with status 200 and no error, so it is evaluated against 200; but the check of the
  configuration is appended with expected status 0 as well, and when the save succeeds on a
  path with a known extension the file holds that configuration, with 0 and not 200.
\<close>

theorem http_expect_zero_is_stored_as_zero:
  assumes "hosts s hostName = Some hs" and "inCap s (Checks hs)"
    and "findHost hostName (Hosts (cfg s)) = Some h"
  shows "\<exists>hs'. hosts (snd (AddHTTPCheck io order hostName url 0 cid dep mq s)) hostName = Some hs'
       \<and> len (Checks hs') = Suc (len (Checks hs))
       \<and> Type (deref (snd (AddHTTPCheck io order hostName url 0 cid dep mq s))
                 (elemPtr (Checks hs') (len (Checks hs)))) = CheckHTTP
       \<and> Expect (deref (snd (AddHTTPCheck io order hostName url 0 cid dep mq s))
                 (elemPtr (Checks hs') (len (Checks hs)))) = 0
       \<and> (\<forall>res. httpActualOK res (deref (snd (AddHTTPCheck io order hostName url 0 cid dep mq s))
                 (elemPtr (Checks hs') (len (Checks hs))))
              \<longleftrightarrow> prErr res = None \<and> prCode res = 200)
       \<and> map_option (\<lambda>h. map cfgExpect (cfgChecks h))
            (findHost hostName (Hosts (cfg (snd (AddHTTPCheck io order hostName url 0 cid dep mq s)))))
           = Some (map cfgExpect (cfgChecks h) @ [0])
       \<and> (persistable s \<and> fst (AddHTTPCheck io order hostName url 0 cid dep mq s) = None
            \<longrightarrow> disk (snd (AddHTTPCheck io order hostName url 0 cid dep mq s))
                = Some (cfg (snd (AddHTTPCheck io order hostName url 0 cid dep mq s))))"
proof -
  let ?cs = "zeroCheckStatus\<lparr>Type := CheckHTTP, Enabled := True, URL := url, Expect := 0,
          ID := cid, DependsOn := dep, MQTTNotify := mq\<rparr>"
  let ?ck = "zeroCheck\<lparr>cfgType := CheckHTTP, cfgEnabled := True, cfgURL := url, cfgExpect := 0,
          cfgID := cid, cfgDependsOn := dep, cfgMQTTNotify := mq\<rparr>"
  let ?a = "appendCheck (Checks hs) ?cs s"
  let ?hs' = "hs\<lparr>Checks := fst ?a\<rparr>"
  let ?s3 = "rebuildCheckIndex order
             (updateCfgHosts (updateFirst hostName (\<lambda>h. h\<lparr>cfgChecks := cfgChecks h @ [?ck]\<rparr>))
               (setHost hostName ?hs' (snd ?a)))"
  let ?r = "AddHTTPCheck io order hostName url 0 cid dep mq s"
  have r: "?r = saveConfigLocked io ?s3"
    unfolding AddHTTPCheck_def by (rule addCheck_result [OF assms(1)])
  have h1: "hosts (snd ?r) hostName = Some ?hs'" by (simp add: r)
  have h2: "len (Checks ?hs') = Suc (len (Checks hs))" by simp
  have "deref (snd ?r) (elemPtr (Checks ?hs') (len (Checks hs)))
        = deref (snd ?a) (elemPtr (fst ?a) (len (Checks hs)))"
    by (simp add: r deref_def)
  then have c: "deref (snd ?r) (elemPtr (Checks ?hs') (len (Checks hs))) = ?cs"
    by (simp add: appendCheck_new [OF assms(2)])
  have h3: "Type (deref (snd ?r) (elemPtr (Checks ?hs') (len (Checks hs)))) = CheckHTTP"
    and h4: "Expect (deref (snd ?r) (elemPtr (Checks ?hs') (len (Checks hs)))) = 0"
    and h5: "\<forall>res. httpActualOK res (deref (snd ?r) (elemPtr (Checks ?hs') (len (Checks hs))))
              \<longleftrightarrow> prErr res = None \<and> prCode res = 200"
    unfolding c by (simp_all add: httpActualOK_def)
  have "findHost hostName (Hosts (cfg ?s3))
        = Some (h\<lparr>cfgChecks := cfgChecks h @ [?ck]\<rparr>)"
    using assms(3) by (simp add: findHost_updateFirst)
  then have h6: "map_option (\<lambda>h. map cfgExpect (cfgChecks h)) (findHost hostName (Hosts (cfg (snd ?r))))
           = Some (map cfgExpect (cfgChecks h) @ [0])"
    unfolding r save_expects by simp
  have h7: "persistable s \<and> fst ?r = None \<longrightarrow> disk (snd ?r) = Some (cfg (snd ?r))"
    unfolding r using save_disk [of ?s3 io] by simp
  show ?thesis
    using h1 h2 h3 h4 h5 h6 h7 by blast
qed

text \<open>
  The theorem on the store of the two example hosts bound to a YAML path: a second check is
  added to the host "Google"; a response with status 200 makes it succeed, and the file is
  written.
\<close>

theorem http_expect_zero_is_stored_as_zero_witness:
  "hosts (snd (AddHTTPCheck fsOK exOrder ''Google'' ''https://google.com'' 0 [] ''internet'' False exBound))
      ''Google''
     = Some (exGoogle\<lparr>Checks := \<lparr>base = Suc (Suc (Suc 0)), len = Suc (Suc 0)\<rparr>\<rparr>)
   \<and> Expect (deref (snd (AddHTTPCheck fsOK exOrder ''Google'' ''https://google.com'' 0 []
                ''internet'' False exBound)) (Suc (Suc (Suc 0)), Suc 0)) = 0
   \<and> httpActualOK \<lparr>prOK = False, prCode = 200, prLatencyMS = 40, prErr = None\<rparr>
        (deref (snd (AddHTTPCheck fsOK exOrder ''Google'' ''https://google.com'' 0 []
                ''internet'' False exBound)) (Suc (Suc (Suc 0)), Suc 0))
   \<and> disk (snd (AddHTTPCheck fsOK exOrder ''Google'' ''https://google.com'' 0 [] ''internet'' False exBound))
     = Some (cfg (snd (AddHTTPCheck fsOK exOrder ''Google'' ''https://google.com'' 0 []
                ''internet'' False exBound)))"
proof -
  let ?r = "AddHTTPCheck fsOK exOrder ''Google'' ''https://google.com'' 0 [] ''internet'' False exBound"
  have h: "hosts exBound ''Google'' = Some exGoogle" "inCap exBound (Checks exGoogle)"
    "findHost ''Google'' (Hosts (cfg exBound)) = Some (Hosts exConfig ! 1)"
    by (simp_all add: ex_ops)
  have p: "persistable exBound" "fst ?r = None"
    "hosts (snd ?r) ''Google''
      = Some (exGoogle\<lparr>Checks := \<lparr>base = Suc (Suc (Suc 0)), len = Suc (Suc 0)\<rparr>\<rparr>)"
    "len (Checks exGoogle) = Suc 0"
    by (simp_all add: persistable_def ex_ops)
  obtain hs' where r: "hosts (snd ?r) ''Google'' = Some hs'"
    "Expect (deref (snd ?r) (elemPtr (Checks hs') (len (Checks exGoogle)))) = 0"
    "\<forall>res. httpActualOK res (deref (snd ?r) (elemPtr (Checks hs') (len (Checks exGoogle))))
              \<longleftrightarrow> prErr res = None \<and> prCode res = 200"
    "persistable exBound \<and> fst ?r = None \<longrightarrow> disk (snd ?r) = Some (cfg (snd ?r))"
    using http_expect_zero_is_stored_as_zero [OF h, of fsOK exOrder "''https://google.com''" "[]"
        "''internet''" False]
    by blast
  have "hs' = exGoogle\<lparr>Checks := \<lparr>base = Suc (Suc (Suc 0)), len = Suc (Suc 0)\<rparr>\<rparr>"
    using r(1) p(3) by simp
  then have e: "elemPtr (Checks hs') (len (Checks exGoogle)) = (Suc (Suc (Suc 0)), Suc 0)"
    using p(4) by (simp add: elemPtr_def)
  show ?thesis using r p e by simp
qed

text \<open>
  Against the claim as stated: after that call the file holds for "Google" a ping check and an
  HTTP check, each with expected status 0.
\<close>

theorem http_expect_zero_persisted_counterexample:
  "map_option (map cfgType)
     (persistedChecks (snd (AddHTTPCheck fsOK exOrder ''Google'' ''https://google.com'' 0 []
         ''internet'' False exBound)) ''Google'') = Some [CheckPing, CheckHTTP]
   \<and> map_option (map cfgExpect)
     (persistedChecks (snd (AddHTTPCheck fsOK exOrder ''Google'' ''https://google.com'' 0 []
         ''internet'' False exBound)) ''Google'') = Some [0, 0]"
  by (simp add: persistedChecks_def ex_ops)

section \<open>Agreement of the store and the configuration\<close>

subsection \<open>The invariant, unfolded\<close>

lemmas agree_defs = consistent_def agrees_def wfStore_def hostNames_def sliceOf_def hostAgrees_def
  statusView_def checkView_def

lemma distinct_filter_map:
  assumes "distinct ns"
  shows "distinct (filter P (map f ns))
         \<longleftrightarrow> (\<forall>a \<in> set ns. \<forall>b \<in> set ns. a \<noteq> b \<and> P (f a) \<longrightarrow> f a \<noteq> f b)"
  using assms
proof (induction ns)
  case Nil
  then show ?case by simp
next
  case (Cons n ns)
  then show ?case by (auto simp: image_iff)
qed

lemma sliceOf_Some [simp]: "hosts s n = Some hs \<Longrightarrow> sliceOf s n = Checks hs"
  by (simp add: sliceOf_def)

lemma consistentD:
  assumes "consistent s"
  shows "distinct (hostNames s)"
    and "dom (hosts s) = set (hostNames s)"
    and "\<And>h. h \<in> set (Hosts (cfg s)) \<Longrightarrow> hostAgrees s h"
    and "heap s 0 = []" and "0 < nextAddr s"
    and "\<And>n hs. hosts s n = Some hs \<Longrightarrow> inCap s (Checks hs)"
    and "\<And>n hs. hosts s n = Some hs \<Longrightarrow> base (Checks hs) < nextAddr s"
    and "\<And>n1 n2 h1 h2. hosts s n1 = Some h1 \<Longrightarrow> hosts s n2 = Some h2 \<Longrightarrow> n1 \<noteq> n2
           \<Longrightarrow> base (Checks h1) \<noteq> 0 \<Longrightarrow> base (Checks h1) \<noteq> base (Checks h2)"
proof -
  show d: "distinct (hostNames s)" and dm: "dom (hosts s) = set (hostNames s)"
    and "heap s 0 = []" and "0 < nextAddr s"
    using assms by (simp_all add: consistent_def agrees_def wfStore_def)
  show "\<And>h. h \<in> set (Hosts (cfg s)) \<Longrightarrow> hostAgrees s h"
    using assms by (simp add: consistent_def agrees_def list_all_iff)
  have la: "\<forall>n \<in> set (hostNames s). inCap s (sliceOf s n) \<and> base (sliceOf s n) < nextAddr s"
    using assms by (simp add: consistent_def wfStore_def list_all_iff)
  have mem: "\<And>n hs. hosts s n = Some hs \<Longrightarrow> n \<in> set (hostNames s)"
    using dm by auto
  show "\<And>n hs. hosts s n = Some hs \<Longrightarrow> inCap s (Checks hs)"
    using la mem by fastforce
  show "\<And>n hs. hosts s n = Some hs \<Longrightarrow> base (Checks hs) < nextAddr s"
    using la mem by fastforce
  have "distinct (filter (\<lambda>a. a \<noteq> 0) (map (\<lambda>n. base (sliceOf s n)) (hostNames s)))"
    using assms by (simp add: consistent_def wfStore_def)
  then have sp: "\<forall>a \<in> set (hostNames s). \<forall>b \<in> set (hostNames s).
      a \<noteq> b \<and> base (sliceOf s a) \<noteq> 0 \<longrightarrow> base (sliceOf s a) \<noteq> base (sliceOf s b)"
    using distinct_filter_map [OF d, of "\<lambda>a. a \<noteq> 0" "\<lambda>n. base (sliceOf s n)"] by simp
  show "\<And>n1 n2 h1 h2. hosts s n1 = Some h1 \<Longrightarrow> hosts s n2 = Some h2 \<Longrightarrow> n1 \<noteq> n2
           \<Longrightarrow> base (Checks h1) \<noteq> 0 \<Longrightarrow> base (Checks h1) \<noteq> base (Checks h2)"
  proof -
    fix n1 n2 h1 h2
    assume a: "hosts s n1 = Some h1" "hosts s n2 = Some h2" "n1 \<noteq> n2" "base (Checks h1) \<noteq> 0"
    have m1: "n1 \<in> set (hostNames s)" and m2: "n2 \<in> set (hostNames s)" using a mem by blast+
    have "n1 \<noteq> n2 \<and> base (sliceOf s n1) \<noteq> 0" using a by simp
    then have "base (sliceOf s n1) \<noteq> base (sliceOf s n2)"
      using bspec [OF bspec [OF sp m1] m2] by blast
    then show "base (Checks h1) \<noteq> base (Checks h2)" using a by simp
  qed
qed

lemma consistentI:
  assumes "distinct (hostNames s)"
    and "dom (hosts s) = set (hostNames s)"
    and "\<And>h. h \<in> set (Hosts (cfg s)) \<Longrightarrow> hostAgrees s h"
    and "heap s 0 = []" and "0 < nextAddr s"
    and "\<And>n hs. hosts s n = Some hs \<Longrightarrow> inCap s (Checks hs)"
    and "\<And>n hs. hosts s n = Some hs \<Longrightarrow> base (Checks hs) < nextAddr s"
    and "\<And>n1 n2 h1 h2. hosts s n1 = Some h1 \<Longrightarrow> hosts s n2 = Some h2 \<Longrightarrow> n1 \<noteq> n2
           \<Longrightarrow> base (Checks h1) \<noteq> 0 \<Longrightarrow> base (Checks h1) \<noteq> base (Checks h2)"
  shows "consistent s"
proof -
  have ex: "\<And>n. n \<in> set (hostNames s) \<Longrightarrow> \<exists>hs. hosts s n = Some hs"
    using assms(2) by auto
  have la: "\<forall>n \<in> set (hostNames s). inCap s (sliceOf s n) \<and> base (sliceOf s n) < nextAddr s"
  proof
    fix n assume "n \<in> set (hostNames s)"
    then obtain hs where "hosts s n = Some hs" using ex by blast
    then show "inCap s (sliceOf s n) \<and> base (sliceOf s n) < nextAddr s"
      using assms(6,7) by simp
  qed
  have sp: "\<forall>a \<in> set (hostNames s). \<forall>b \<in> set (hostNames s).
      a \<noteq> b \<and> base (sliceOf s a) \<noteq> 0 \<longrightarrow> base (sliceOf s a) \<noteq> base (sliceOf s b)"
  proof (intro ballI impI, elim conjE)
    fix a b assume m: "a \<in> set (hostNames s)" "b \<in> set (hostNames s)" "a \<noteq> b"
      "base (sliceOf s a) \<noteq> 0"
    obtain h1 h2 where h: "hosts s a = Some h1" "hosts s b = Some h2" using ex m by blast
    then show "base (sliceOf s a) \<noteq> base (sliceOf s b)" using assms(8) [OF h m(3)] m(4) by simp
  qed
  have "distinct (filter (\<lambda>a. a \<noteq> 0) (map (\<lambda>n. base (sliceOf s n)) (hostNames s)))"
    using distinct_filter_map [OF assms(1), of "\<lambda>a. a \<noteq> 0" "\<lambda>n. base (sliceOf s n)"] sp
    by simp
  then show ?thesis
    using assms(1,2,3,4,5) la by (simp add: consistent_def agrees_def wfStore_def list_all_iff)
qed

subsection \<open>Changing one host; saving; rebuilding the index\<close>

lemma updateFirst_names:
  "(\<And>h. cfgName (f h) = cfgName h) \<Longrightarrow> map cfgName (updateFirst X f hs) = map cfgName hs"
  by (induction hs) auto

lemma updateFirst_set:
  assumes "distinct (map cfgName hs)" and "h' \<in> set (updateFirst X f hs)"
  shows "(h' \<in> set hs \<and> cfgName h' \<noteq> X) \<or> (\<exists>h. findHost X hs = Some h \<and> h' = f h)"
  using assms
proof (induction hs)
  case Nil
  then show ?case by simp
next
  case (Cons a hs)
  show ?case
  proof (cases "cfgName a = X")
    case True
    then show ?thesis using Cons.prems by (auto simp: image_iff)
  next
    case False
    then show ?thesis using Cons by auto
  qed
qed

lemma findHost_mem: "findHost X hs = Some h \<Longrightarrow> h \<in> set hs \<and> cfgName h = X"
  by (induction hs) (auto split: if_splits)

lemma elems_cong:
  "heap s' (base sl) = heap s (base sl) \<Longrightarrow> elems s' sl = elems s sl"
  by (simp add: elems_def)

lemma inCap_cong:
  "heap s' (base sl) = heap s (base sl) \<Longrightarrow> inCap s' sl = inCap s sl"
  by (simp add: inCap_def)



lemma modify_host_consistent:
  assumes c: "consistent s" and x: "hosts s X = Some hs"
    and hs': "hosts s' = (hosts s)(X \<mapsto> hs')"
    and cf: "Hosts (cfg s') = updateFirst X f (Hosts (cfg s))"
    and fn: "\<And>h. cfgName (f h) = cfgName h"
    and hp: "\<And>a. a \<noteq> base (Checks hs) \<or> a = 0 \<Longrightarrow> a < nextAddr s \<Longrightarrow> heap s' a = heap s a"
    and nx: "nextAddr s \<le> nextAddr s'"
    and ic: "inCap s' (Checks hs')" and bn: "base (Checks hs') < nextAddr s'"
    and bs: "base (Checks hs') = base (Checks hs) \<or> nextAddr s \<le> base (Checks hs')"
    and vw: "\<And>h. findHost X (Hosts (cfg s)) = Some h
               \<Longrightarrow> map statusView (elems s' (Checks hs')) = map checkView (cfgChecks (f h))"
  shows "consistent s'"
proof (rule consistentI)
  note D = consistentD [OF c]
  have names: "hostNames s' = hostNames s"
    by (simp add: hostNames_def cf updateFirst_names [OF fn])
  show "distinct (hostNames s')" using D(1) names by simp
  show "dom (hosts s') = set (hostNames s')" using D(2) x names hs' by auto
  show "heap s' 0 = []" using hp [of 0] D(4,5) by simp
  show "0 < nextAddr s'" using D(5) nx by simp
  have other: "\<And>n h. n \<noteq> X \<Longrightarrow> hosts s n = Some h \<Longrightarrow> heap s' (base (Checks h)) = heap s (base (Checks h))"
  proof -
    fix n h assume a: "n \<noteq> X" "hosts s n = Some h"
    have "base (Checks h) \<noteq> base (Checks hs) \<or> base (Checks h) = 0"
      using D(8) [OF a(2) x a(1)] by blast
    then show "heap s' (base (Checks h)) = heap s (base (Checks h))"
      using hp D(7) [OF a(2)] by blast
  qed
  show "\<And>n h. hosts s' n = Some h \<Longrightarrow> inCap s' (Checks h)"
  proof -
    fix n h assume a: "hosts s' n = Some h"
    show "inCap s' (Checks h)"
    proof (cases "n = X")
      case True
      then show ?thesis using a hs' ic by simp
    next
      case False
      then have b: "hosts s n = Some h" using a hs' by simp
      show ?thesis using inCap_cong [OF other [OF False b]] D(6) [OF b] by simp
    qed
  qed
  show "\<And>n h. hosts s' n = Some h \<Longrightarrow> base (Checks h) < nextAddr s'"
  proof -
    fix n h assume a: "hosts s' n = Some h"
    show "base (Checks h) < nextAddr s'"
    proof (cases "n = X")
      case True
      then show ?thesis using a hs' bn by simp
    next
      case False
      then have b: "hosts s n = Some h" using a hs' by simp
      show ?thesis using D(7) [OF b] nx by simp
    qed
  qed
  show "\<And>n1 n2 h1 h2. hosts s' n1 = Some h1 \<Longrightarrow> hosts s' n2 = Some h2 \<Longrightarrow> n1 \<noteq> n2
           \<Longrightarrow> base (Checks h1) \<noteq> 0 \<Longrightarrow> base (Checks h1) \<noteq> base (Checks h2)"
  proof -
    fix n1 n2 h1 h2
    assume a: "hosts s' n1 = Some h1" "hosts s' n2 = Some h2" "n1 \<noteq> n2" "base (Checks h1) \<noteq> 0"
    show "base (Checks h1) \<noteq> base (Checks h2)"
    proof (cases "n1 = X")
      case True
      then have h1: "h1 = hs'" using a(1) hs' by simp
      have b2: "hosts s n2 = Some h2" using a(2,3) True hs' by simp
      show ?thesis
      proof (cases "base (Checks hs') = base (Checks hs)")
        case True
        then show ?thesis using D(8) [OF x b2] a(3,4) h1 \<open>n1 = X\<close> by auto
      next
        case False
        then have "nextAddr s \<le> base (Checks hs')" using bs by simp
        then show ?thesis using D(7) [OF b2] h1 by simp
      qed
    next
      case False
      then have b1: "hosts s n1 = Some h1" using a(1) hs' by simp
      show ?thesis
      proof (cases "n2 = X")
        case True
        then have h2: "h2 = hs'" using a(2) hs' by simp
        show ?thesis
        proof (cases "base (Checks hs') = base (Checks hs)")
          case True
          then show ?thesis using D(8) [OF b1 x False a(4)] h2 by simp
        next
          case False
          then have "nextAddr s \<le> base (Checks hs')" using bs by simp
          then show ?thesis using D(7) [OF b1] h2 by simp
        qed
      next
        case False
        then have b2: "hosts s n2 = Some h2" using a(2) hs' by simp
        show ?thesis using D(8) [OF b1 b2 a(3,4)] .
      qed
    qed
  qed
  show "\<And>h. h \<in> set (Hosts (cfg s')) \<Longrightarrow> hostAgrees s' h"
  proof -
    fix h' assume m: "h' \<in> set (Hosts (cfg s'))"
    have d: "distinct (map cfgName (Hosts (cfg s)))" using D(1) by (simp add: hostNames_def)
    from updateFirst_set [OF d, of h' X f] m cf
    consider "h' \<in> set (Hosts (cfg s))" "cfgName h' \<noteq> X"
      | h where "findHost X (Hosts (cfg s)) = Some h" "h' = f h"
      by auto
    then show "hostAgrees s' h'"
    proof cases
      case 1
      have ag: "hostAgrees s h'" using D(3) [OF 1(1)] .
      have "cfgName h' \<in> dom (hosts s)" using D(2) 1(1) by (simp add: hostNames_def)
      then obtain hh where hh: "hosts s (cfgName h') = Some hh" by auto
      have "hosts s' (cfgName h') = Some hh" using hh 1(2) hs' by simp
      then have "elems s' (sliceOf s' (cfgName h')) = elems s (sliceOf s (cfgName h'))"
        using hh elems_cong [OF other [OF 1(2) hh]] by simp
      then show ?thesis using ag by (simp add: hostAgrees_def)
    next
      case 2
      have "cfgName h' = X" using findHost_mem [OF 2(1)] 2(2) fn by simp
      then have "sliceOf s' (cfgName h') = Checks hs'" using hs' by (simp add: sliceOf_def)
      then show ?thesis using vw [OF 2(1)] 2(2) by (simp add: hostAgrees_def)
    qed
  qed
qed

lemma syncChecks_view:
  "map statusView rs = map checkView cks \<Longrightarrow> map checkView (syncChecks cks rs) = map checkView cks"
proof (induction cks rs rule: syncChecks.induct)
  case (1 rs)
  then show ?case by simp
next
  case (2 ck cks)
  then show ?case by simp
next
  case (3 ck cks r rs)
  then have "statusView r = checkView ck" "map statusView rs = map checkView cks" by simp_all
  then show ?case using 3 by (simp add: checkView_def statusView_def)
qed

lemma save_consistent:
  assumes "consistent s"
  shows "consistent (snd (saveConfigLocked io s))"
proof (cases "configPath s = []")
  case True
  then show ?thesis using assms by (simp add: saveConfigLocked_def)
next
  case False
  let ?s' = "snd (saveConfigLocked io s)"
  note D = consistentD [OF assms]
  have cf: "Hosts (cfg ?s') = map (syncHost s) (Hosts (cfg s))" using False by (simp add: save_cfg)
  have names: "hostNames ?s' = hostNames s" by (simp add: hostNames_def cf comp_def)
  show ?thesis
  proof (rule consistentI)
    show "distinct (hostNames ?s')" using D(1) names by simp
    show "dom (hosts ?s') = set (hostNames ?s')" using D(2) names by simp
    show "heap ?s' 0 = []" using D(4) by simp
    show "0 < nextAddr ?s'" using D(5) by simp
    show "\<And>n hs. hosts ?s' n = Some hs \<Longrightarrow> inCap ?s' (Checks hs)"
      using D(6) by (simp add: inCap_def)
    show "\<And>n hs. hosts ?s' n = Some hs \<Longrightarrow> base (Checks hs) < nextAddr ?s'"
      using D(7) by simp
    show "\<And>n1 n2 h1 h2. hosts ?s' n1 = Some h1 \<Longrightarrow> hosts ?s' n2 = Some h2 \<Longrightarrow> n1 \<noteq> n2
           \<Longrightarrow> base (Checks h1) \<noteq> 0 \<Longrightarrow> base (Checks h1) \<noteq> base (Checks h2)"
      using D(8) by simp
    show "\<And>h. h \<in> set (Hosts (cfg ?s')) \<Longrightarrow> hostAgrees ?s' h"
    proof -
      fix h' assume "h' \<in> set (Hosts (cfg ?s'))"
      then obtain h where h: "h \<in> set (Hosts (cfg s))" "h' = syncHost s h" using cf by auto
      have ag: "map statusView (elems s (sliceOf s (cfgName h))) = map checkView (cfgChecks h)"
        using D(3) [OF h(1)] by (simp add: hostAgrees_def)
      have "cfgName h \<in> dom (hosts s)" using D(2) h(1) by (simp add: hostNames_def)
      then obtain hh where hh: "hosts s (cfgName h) = Some hh" by auto
      have "cfgChecks h' = syncChecks (cfgChecks h) (elems s (Checks hh))"
        using h(2) hh by (simp add: syncHost_def)
      then have "map checkView (cfgChecks h') = map checkView (cfgChecks h)"
        using ag hh by (simp add: syncChecks_view)
      moreover have "elems ?s' (sliceOf ?s' (cfgName h')) = elems s (sliceOf s (cfgName h))"
        using h(2) by (simp add: sliceOf_def elems_def)
      ultimately show "hostAgrees ?s' h'" using ag by (simp add: hostAgrees_def)
    qed
  qed
qed

lemma consistent_cong:
  assumes "consistent s" and "hosts s' = hosts s" and "cfg s' = cfg s" and "heap s' = heap s"
    and "nextAddr s' = nextAddr s"
  shows "consistent s'"
proof -
  have a: "hostAgrees s' = hostAgrees s"
    by (rule ext) (simp add: hostAgrees_def sliceOf_def elems_def assms(2,4))
  have b: "hostNames s' = hostNames s" by (simp add: hostNames_def assms(3))
  have c: "sliceOf s' = sliceOf s" by (rule ext) (simp add: sliceOf_def assms(2))
  have d: "inCap s' = inCap s" by (rule ext) (simp add: inCap_def assms(4))
  show ?thesis
    using assms(1) by (simp add: consistent_def agrees_def wfStore_def a b c d assms(2,3,4,5))
qed

lemma rebuild_consistent: "consistent s \<Longrightarrow> consistent (rebuildCheckIndex order s)"
  by (rule consistent_cong) simp_all

subsection \<open>Adding and removing a check\<close>

lemma appendCheck_heap_other:
  assumes "a \<noteq> base sl \<or> a = 0" and "a < nextAddr s" and "heap s 0 = []"
  shows "heap (snd (appendCheck sl c s)) a = heap s a"
proof (cases "len sl < length (heap s (base sl))")
  case True
  have "base sl \<noteq> 0"
  proof
    assume "base sl = 0"
    then show False using True assms(3) by simp
  qed
  then have "a \<noteq> base sl" using assms(1) by auto
  then show ?thesis using True by (simp add: appendCheck_def)
next
  case False
  then show ?thesis using assms(2) by (simp add: appendCheck_def)
qed

lemma appendCheck_next:
  "nextAddr s \<le> nextAddr (snd (appendCheck sl c s))"
  by (simp add: appendCheck_def)

lemma appendCheck_inCap:
  assumes "inCap s sl"
  shows "inCap (snd (appendCheck sl c s)) (fst (appendCheck sl c s))"
proof (cases "len sl < length (heap s (base sl))")
  case True
  then show ?thesis by (simp add: appendCheck_def inCap_def)
next
  case False
  then have "len sl = length (heap s (base sl))" using assms by (simp add: inCap_def)
  then show ?thesis by (simp add: appendCheck_def inCap_def)
qed

lemma appendCheck_base:
  "base (fst (appendCheck sl c s)) = base sl \<or> nextAddr s \<le> base (fst (appendCheck sl c s))"
  by (simp add: appendCheck_def)

lemma appendCheck_base_lt:
  "base sl < nextAddr s
     \<Longrightarrow> base (fst (appendCheck sl c s)) < nextAddr (snd (appendCheck sl c s))"
  by (simp add: appendCheck_def)

lemma agrees_found:
  assumes "consistent s" and "hosts s X = Some hs" and "findHost X (Hosts (cfg s)) = Some h"
  shows "map statusView (elems s (Checks hs)) = map checkView (cfgChecks h)"
proof -
  have "h \<in> set (Hosts (cfg s))" "cfgName h = X" using findHost_mem [OF assms(3)] by simp_all
  then show ?thesis
    using consistentD(3) [OF assms(1), of h] assms(2) by (simp add: hostAgrees_def)
qed

lemma addCheck_consistent:
  assumes c: "consistent s" and v: "statusView cs = checkView ck"
  shows "consistent (snd (addCheck io order X cs ck s))"
proof (cases "hosts s X")
  case None
  then show ?thesis using c by (simp add: addCheck_def)
next
  case (Some hs)
  note D = consistentD [OF c]
  let ?a = "appendCheck (Checks hs) cs s"
  let ?hs' = "hs\<lparr>Checks := fst ?a\<rparr>"
  let ?f = "\<lambda>h. h\<lparr>cfgChecks := cfgChecks h @ [ck]\<rparr>"
  let ?s2 = "updateCfgHosts (updateFirst X ?f) (setHost X ?hs' (snd ?a))"
  have "consistent ?s2"
  proof (rule modify_host_consistent [OF c Some, where hs' = ?hs' and f = ?f])
    show "hosts ?s2 = (hosts s)(X \<mapsto> ?hs')" by simp
    show "Hosts (cfg ?s2) = updateFirst X ?f (Hosts (cfg s))" by simp
    show "\<And>h. cfgName (?f h) = cfgName h" by simp
    show "\<And>a. a \<noteq> base (Checks hs) \<or> a = 0 \<Longrightarrow> a < nextAddr s \<Longrightarrow> heap ?s2 a = heap s a"
      using appendCheck_heap_other [OF _ _ D(4)] by simp
    show "nextAddr s \<le> nextAddr ?s2" using appendCheck_next by simp
    show "inCap ?s2 (Checks ?hs')"
      using appendCheck_inCap [OF D(6) [OF Some], of cs] by (simp add: inCap_def)
    show "base (Checks ?hs') < nextAddr ?s2"
      using appendCheck_base_lt [OF D(7) [OF Some], of cs] by simp
    show "base (Checks ?hs') = base (Checks hs) \<or> nextAddr s \<le> base (Checks ?hs')"
      using appendCheck_base [of "Checks hs" cs s] by simp
    show "\<And>h. findHost X (Hosts (cfg s)) = Some h
               \<Longrightarrow> map statusView (elems ?s2 (Checks ?hs')) = map checkView (cfgChecks (?f h))"
    proof -
      fix h assume fh: "findHost X (Hosts (cfg s)) = Some h"
      have "elems ?s2 (Checks ?hs') = elems (snd ?a) (fst ?a)" by (simp add: elems_def)
      then have "elems ?s2 (Checks ?hs') = elems s (Checks hs) @ [cs]"
        using appendCheck_elems [OF D(6) [OF Some], of cs] by simp
      then show "map statusView (elems ?s2 (Checks ?hs')) = map checkView (cfgChecks (?f h))"
        using agrees_found [OF c Some fh] v by simp
    qed
  qed
  then have "consistent (snd (saveConfigLocked io (rebuildCheckIndex order ?s2)))"
    by (intro save_consistent rebuild_consistent)
  then show ?thesis by (simp add: addCheck_result [OF Some])
qed

lemma RemoveCheck_consistent:
  assumes c: "consistent s"
  shows "consistent (snd (RemoveCheck io X idx s))"
proof (cases "hosts s X")
  case None
  then show ?thesis using c by (simp add: RemoveCheck_def)
next
  case (Some hs)
  note D = consistentD [OF c]
  show ?thesis
  proof (cases "badIndex idx (len (Checks hs))")
    case True
    then show ?thesis using c Some by (simp add: RemoveCheck_def)
  next
    case False
    then have i: "nat idx < len (Checks hs)" unfolding badIndex_def by linarith
    have cap: "inCap s (Checks hs)" using D(6) [OF Some] .
    have b0: "base (Checks hs) \<noteq> 0"
    proof
      assume "base (Checks hs) = 0"
      then have "len (Checks hs) = 0" using cap D(4) by (simp add: inCap_def)
      then show False using i by simp
    qed
    let ?a = "removeAt (nat idx) (Checks hs) s"
    let ?hs' = "hs\<lparr>Checks := fst ?a\<rparr>"
    let ?f = "\<lambda>h. if badIndex idx (length (cfgChecks h)) then h
                   else h\<lparr>cfgChecks := take (nat idx) (cfgChecks h) @ drop (Suc (nat idx)) (cfgChecks h)\<rparr>"
    let ?s2 = "updateCfgHosts (updateFirst X ?f) (setHost X ?hs' (snd ?a))"
    have r: "RemoveCheck io X idx s = saveConfigLocked io ?s2"
      using Some False by (simp add: RemoveCheck_def Let_def case_prod_beta)
    have "consistent ?s2"
    proof (rule modify_host_consistent [OF c Some, where hs' = ?hs' and f = ?f])
      show "hosts ?s2 = (hosts s)(X \<mapsto> ?hs')" by simp
      show "Hosts (cfg ?s2) = updateFirst X ?f (Hosts (cfg s))" by simp
      show "\<And>h. cfgName (?f h) = cfgName h" by simp
      show "\<And>a. a \<noteq> base (Checks hs) \<or> a = 0 \<Longrightarrow> a < nextAddr s \<Longrightarrow> heap ?s2 a = heap s a"
        using b0 by (auto simp: removeAt_heap)
      show "nextAddr s \<le> nextAddr ?s2" by simp
      show "inCap ?s2 (Checks ?hs')"
        using cap by (simp add: inCap_def removeAt_heap)
      show "base (Checks ?hs') < nextAddr ?s2" using D(7) [OF Some] by simp
      show "base (Checks ?hs') = base (Checks hs) \<or> nextAddr s \<le> base (Checks ?hs')" by simp
      show "\<And>h. findHost X (Hosts (cfg s)) = Some h
               \<Longrightarrow> map statusView (elems ?s2 (Checks ?hs')) = map checkView (cfgChecks (?f h))"
      proof -
        fix h assume fh: "findHost X (Hosts (cfg s)) = Some h"
        note ag = agrees_found [OF c Some fh]
        have "length (elems s (Checks hs)) = len (Checks hs)" using cap by (simp add: elems_def inCap_def)
        then have ln: "length (cfgChecks h) = len (Checks hs)"
          using arg_cong [OF ag, of length] by simp
        have "elems ?s2 (Checks ?hs') = elems (snd ?a) (fst ?a)" by (simp add: elems_def)
        then have "elems ?s2 (Checks ?hs')
            = take (nat idx) (elems s (Checks hs)) @ drop (Suc (nat idx)) (elems s (Checks hs))"
          using removeAt_elems [OF i cap] by simp
        then have e: "elems ?s2 (Checks ?hs')
            = take (nat idx) (elems s (Checks hs)) @ drop (Suc (nat idx)) (elems s (Checks hs))"
          by simp
        have "map statusView (take (nat idx) (elems s (Checks hs))
                @ drop (Suc (nat idx)) (elems s (Checks hs)))
            = take (nat idx) (map statusView (elems s (Checks hs)))
                @ drop (Suc (nat idx)) (map statusView (elems s (Checks hs)))"
          by (simp add: take_map drop_map)
        also have "\<dots> = take (nat idx) (map checkView (cfgChecks h))
                @ drop (Suc (nat idx)) (map checkView (cfgChecks h))"
          by (simp only: ag)
        also have "\<dots> = map checkView (take (nat idx) (cfgChecks h)
                @ drop (Suc (nat idx)) (cfgChecks h))"
          by (simp add: take_map drop_map)
        finally show "map statusView (elems ?s2 (Checks ?hs')) = map checkView (cfgChecks (?f h))"
          unfolding e using False ln by simp
      qed
    qed
    then show ?thesis unfolding r by (rule save_consistent)
  qed
qed

subsection \<open>Updating a check in place; enabling and disabling\<close>

lemma elems_store:
  "elems (store (elemPtr sl i) c s) sl = (elems s sl)[i := c]"
  by (simp add: elems_def store_def elemPtr_def take_update_swap)

lemma store_frame [simp]:
  "cfg (store q c s) = cfg s"
  "nextAddr (store q c s) = nextAddr s"
  "checksByID (store q c s) = checksByID s"
  "configPath (store q c s) = configPath s"
  "disk (store q c s) = disk s"
  "persistable (store q c s) = persistable s"
  by (simp_all add: store_def persistable_def)

lemma store_heap:
  "heap (store q c s) a = (if a = fst q then (heap s a)[snd q := c] else heap s a)"
  by (simp add: store_def)

lemma updateCheck_consistent:
  assumes c: "consistent s"
    and v: "\<And>c k. statusView c = checkView k \<Longrightarrow> statusView (f c) = checkView (g k)"
  shows "consistent (snd (updateCheck io order X idx typeTest f g s))"
proof (cases "hosts s X")
  case None
  then show ?thesis using c by (simp add: updateCheck_def)
next
  case (Some hs)
  note D = consistentD [OF c]
  show ?thesis
  proof (cases "badIndex idx (len (Checks hs))")
    case True
    then show ?thesis using c Some by (simp add: updateCheck_def)
  next
    case False
    then have i: "nat idx < len (Checks hs)" unfolding badIndex_def by linarith
    show ?thesis
    proof (cases "typeTest (Type (deref s (elemPtr (Checks hs) (nat idx))))")
      case (Some e)
      then show ?thesis using c \<open>hosts s X = Some hs\<close> False by (simp add: updateCheck_def)
    next
      case None
      have cap: "inCap s (Checks hs)" using D(6) [OF \<open>hosts s X = Some hs\<close>] .
      have b0: "base (Checks hs) \<noteq> 0"
      proof
        assume "base (Checks hs) = 0"
        then have "len (Checks hs) = 0" using cap D(4) by (simp add: inCap_def)
        then show False using i by simp
      qed
      let ?q = "elemPtr (Checks hs) (nat idx)"
      let ?g = "\<lambda>h. if badIndex idx (length (cfgChecks h)) then h
                    else h\<lparr>cfgChecks := (cfgChecks h)[nat idx := g (cfgChecks h ! nat idx)]\<rparr>"
      let ?s2 = "updateCfgHosts (updateFirst X ?g) (store ?q (f (deref s ?q)) s)"
      have "consistent ?s2"
      proof (rule modify_host_consistent [OF c \<open>hosts s X = Some hs\<close>, where hs' = hs and f = ?g])
        show "hosts ?s2 = (hosts s)(X \<mapsto> hs)" using \<open>hosts s X = Some hs\<close> by (simp add: fun_upd_idem)
        show "Hosts (cfg ?s2) = updateFirst X ?g (Hosts (cfg s))" by simp
        show "\<And>h. cfgName (?g h) = cfgName h" by simp
        show "\<And>a. a \<noteq> base (Checks hs) \<or> a = 0 \<Longrightarrow> a < nextAddr s \<Longrightarrow> heap ?s2 a = heap s a"
          using b0 by (auto simp: store_heap elemPtr_def)
        show "nextAddr s \<le> nextAddr ?s2" by simp
        show "inCap ?s2 (Checks hs)" using cap by (simp add: inCap_def store_heap elemPtr_def)
        show "base (Checks hs) < nextAddr ?s2" using D(7) [OF \<open>hosts s X = Some hs\<close>] by simp
        show "base (Checks hs) = base (Checks hs) \<or> nextAddr s \<le> base (Checks hs)" by simp
        show "\<And>h. findHost X (Hosts (cfg s)) = Some h
               \<Longrightarrow> map statusView (elems ?s2 (Checks hs)) = map checkView (cfgChecks (?g h))"
        proof -
          fix h assume fh: "findHost X (Hosts (cfg s)) = Some h"
          note ag = agrees_found [OF c \<open>hosts s X = Some hs\<close> fh]
          have le: "length (elems s (Checks hs)) = len (Checks hs)"
            using cap by (simp add: elems_def inCap_def)
          then have ln: "length (cfgChecks h) = len (Checks hs)"
            using arg_cong [OF ag, of length] by simp
          have nb: "\<not> badIndex idx (length (cfgChecks h))" using False ln by simp
          have "statusView (elems s (Checks hs) ! nat idx) = checkView (cfgChecks h ! nat idx)"
            using arg_cong [OF ag, of "\<lambda>l. l ! nat idx"] i le ln by simp
          then have st: "statusView (f (elems s (Checks hs) ! nat idx))
              = checkView (g (cfgChecks h ! nat idx))" by (rule v)
          have "elems ?s2 (Checks hs) = elems (store ?q (f (deref s ?q)) s) (Checks hs)"
            by (simp add: elems_def)
          then have "elems ?s2 (Checks hs)
              = (elems s (Checks hs))[nat idx := f (elems s (Checks hs) ! nat idx)]"
            using i by (simp add: elems_store elems_nth)
          then show "map statusView (elems ?s2 (Checks hs)) = map checkView (cfgChecks (?g h))"
            using nb st ag by (simp add: map_update)
        qed
      qed
      then have "consistent (snd (saveConfigLocked io (rebuildCheckIndex order ?s2)))"
        by (intro save_consistent rebuild_consistent)
      then show ?thesis
        using \<open>hosts s X = Some hs\<close> False None by (simp add: updateCheck_def Let_def)
    qed
  qed
qed

lemma views_consistent:
  assumes c: "consistent s" and "hosts s' = hosts s" and "cfg s' = cfg s"
    and "nextAddr s' = nextAddr s"
    and hv: "\<And>a. map statusView (heap s' a) = map statusView (heap s a)"
  shows "consistent s'"
proof -
  have ln: "\<And>a. length (heap s' a) = length (heap s a)"
    using arg_cong [OF hv, of length] by simp
  have e: "\<And>sl. map statusView (elems s' sl) = map statusView (elems s sl)"
    by (simp add: elems_def take_map [symmetric] hv)
  have a: "hostAgrees s' = hostAgrees s"
    by (rule ext) (simp add: hostAgrees_def sliceOf_def e assms(2))
  have b: "hostNames s' = hostNames s" by (simp add: hostNames_def assms(3))
  have s: "sliceOf s' = sliceOf s" by (rule ext) (simp add: sliceOf_def assms(2))
  have d: "inCap s' = inCap s" by (rule ext) (simp add: inCap_def ln)
  have z: "heap s' 0 = []" if "heap s 0 = []" using ln [of 0] that by simp
  show ?thesis
    using c z by (simp add: consistent_def agrees_def wfStore_def a b s d assms(2,3,4))
qed

lemma map_update_same:
  "f y = f (xs ! i) \<Longrightarrow> map f (xs[i := y]) = map f xs"
  by (induction xs arbitrary: i) (auto split: nat.splits)

lemma statusView_Enabled [simp]: "statusView (c\<lparr>Enabled := e\<rparr>) = statusView c"
  by (simp add: statusView_def)

lemma Toggle_frame:
  "hosts (Toggle X idx e s) = hosts s" "cfg (Toggle X idx e s) = cfg s"
  "nextAddr (Toggle X idx e s) = nextAddr s" "disk (Toggle X idx e s) = disk s"
  "map statusView (heap (Toggle X idx e s) a) = map statusView (heap s a)"
  by (auto simp: Toggle_def store_heap deref_def map_update_same split: option.splits)

lemma setEnabledHost_frame:
  "hosts (setEnabledHost e hs s) = hosts s" "cfg (setEnabledHost e hs s) = cfg s"
  "nextAddr (setEnabledHost e hs s) = nextAddr s" "disk (setEnabledHost e hs s) = disk s"
  "map statusView (heap (setEnabledHost e hs s) a) = map statusView (heap s a)"
proof -
  have "map statusView (map (\<lambda>c. c\<lparr>Enabled := e\<rparr>) (take n xs) @ drop n xs) = map statusView xs"
    for n and xs :: "CheckStatus list"
  proof -
    have "map statusView (map (\<lambda>c. c\<lparr>Enabled := e\<rparr>) (take n xs) @ drop n xs)
        = map statusView (take n xs) @ map statusView (drop n xs)"
      by (simp add: comp_def)
    also have "\<dots> = map statusView (take n xs @ drop n xs)" by (simp only: map_append)
    also have "\<dots> = map statusView xs" by (simp only: append_take_drop_id)
    finally show ?thesis .
  qed
  then show "map statusView (heap (setEnabledHost e hs s) a) = map statusView (heap s a)"
    by (simp add: setEnabledHost_def)
qed (simp_all add: setEnabledHost_def)

lemma setEnabledHosts_frame:
  "hosts (setEnabledHosts e ns s) = hosts s \<and> cfg (setEnabledHosts e ns s) = cfg s
   \<and> nextAddr (setEnabledHosts e ns s) = nextAddr s \<and> disk (setEnabledHosts e ns s) = disk s
   \<and> (\<forall>a. map statusView (heap (setEnabledHosts e ns s) a) = map statusView (heap s a))"
proof (induction ns arbitrary: s)
  case Nil
  then show ?case by simp
next
  case (Cons n ns)
  show ?case
  proof (cases "hosts s n")
    case None
    then show ?thesis using Cons [of s] by simp
  next
    case (Some hs)
    then show ?thesis using Cons [of "setEnabledHost e hs s"] by (simp add: setEnabledHost_frame)
  qed
qed

lemma Toggle_consistent: "consistent s \<Longrightarrow> consistent (Toggle X idx e s)"
  by (rule views_consistent) (simp_all add: Toggle_frame)

lemma SetAllEnabled_consistent: "consistent s \<Longrightarrow> consistent (SetAllEnabled order e s)"
  unfolding SetAllEnabled_def
  by (rule views_consistent) (simp_all add: setEnabledHosts_frame)

subsection \<open>Adding and deleting a host\<close>

lemma add_host_consistent:
  assumes c: "consistent s" and x: "hosts s X = None"
    and hs': "hosts s' = (hosts s)(X \<mapsto> hs')"
    and cf: "Hosts (cfg s') = Hosts (cfg s) @ [h']" and nm: "cfgName h' = X"
    and hp: "\<And>a. a < nextAddr s \<Longrightarrow> heap s' a = heap s a"
    and nx: "nextAddr s \<le> nextAddr s'"
    and ic: "inCap s' (Checks hs')" and bn: "base (Checks hs') < nextAddr s'"
    and bs: "base (Checks hs') = 0 \<or> nextAddr s \<le> base (Checks hs')"
    and vw: "map statusView (elems s' (Checks hs')) = map checkView (cfgChecks h')"
  shows "consistent s'"
proof (rule consistentI)
  note D = consistentD [OF c]
  have names: "hostNames s' = hostNames s @ [X]" by (simp add: hostNames_def cf nm)
  have xn: "X \<notin> set (hostNames s)" using D(2) x by auto
  show "distinct (hostNames s')" using D(1) names xn by simp
  show "dom (hosts s') = set (hostNames s')" using D(2) names hs' by auto
  show "heap s' 0 = []" using hp [of 0] D(4,5) by simp
  show "0 < nextAddr s'" using D(5) nx by simp
  have old: "\<And>n h. n \<noteq> X \<Longrightarrow> hosts s' n = Some h \<Longrightarrow> hosts s n = Some h"
    using hs' by simp
  show "\<And>n h. hosts s' n = Some h \<Longrightarrow> inCap s' (Checks h)"
  proof -
    fix n h assume a: "hosts s' n = Some h"
    show "inCap s' (Checks h)"
    proof (cases "n = X")
      case True
      then show ?thesis using a hs' ic by simp
    next
      case False
      then have b: "hosts s n = Some h" using old a by simp
      show ?thesis using inCap_cong [OF hp [OF D(7) [OF b]]] D(6) [OF b] by simp
    qed
  qed
  show "\<And>n h. hosts s' n = Some h \<Longrightarrow> base (Checks h) < nextAddr s'"
  proof -
    fix n h assume a: "hosts s' n = Some h"
    show "base (Checks h) < nextAddr s'"
    proof (cases "n = X")
      case True
      then show ?thesis using a hs' bn by simp
    next
      case False
      then have b: "hosts s n = Some h" using old a by simp
      show ?thesis using D(7) [OF b] nx by simp
    qed
  qed
  show "\<And>n1 n2 h1 h2. hosts s' n1 = Some h1 \<Longrightarrow> hosts s' n2 = Some h2 \<Longrightarrow> n1 \<noteq> n2
           \<Longrightarrow> base (Checks h1) \<noteq> 0 \<Longrightarrow> base (Checks h1) \<noteq> base (Checks h2)"
  proof -
    fix n1 n2 h1 h2
    assume a: "hosts s' n1 = Some h1" "hosts s' n2 = Some h2" "n1 \<noteq> n2" "base (Checks h1) \<noteq> 0"
    show "base (Checks h1) \<noteq> base (Checks h2)"
    proof (cases "n1 = X")
      case True
      then have h1: "h1 = hs'" using a(1) hs' by simp
      have b2: "hosts s n2 = Some h2" using a(2,3) True old by simp
      have "nextAddr s \<le> base (Checks hs')" using bs a(4) h1 by simp
      then show ?thesis using D(7) [OF b2] h1 by simp
    next
      case False
      then have b1: "hosts s n1 = Some h1" using a(1) old by simp
      show ?thesis
      proof (cases "n2 = X")
        case True
        then have h2: "h2 = hs'" using a(2) hs' by simp
        show ?thesis using bs D(7) [OF b1] a(4) h2 by auto
      next
        case False
        then have b2: "hosts s n2 = Some h2" using a(2) old by simp
        show ?thesis using D(8) [OF b1 b2 a(3,4)] .
      qed
    qed
  qed
  show "\<And>h. h \<in> set (Hosts (cfg s')) \<Longrightarrow> hostAgrees s' h"
  proof -
    fix h assume "h \<in> set (Hosts (cfg s'))"
    then consider "h \<in> set (Hosts (cfg s))" | "h = h'" using cf by auto
    then show "hostAgrees s' h"
    proof cases
      case 1
      then have ne: "cfgName h \<noteq> X" using xn by (auto simp: hostNames_def)
      have "cfgName h \<in> dom (hosts s)" using D(2) 1 by (simp add: hostNames_def)
      then obtain hh where hh: "hosts s (cfgName h) = Some hh" by auto
      have "hosts s' (cfgName h) = Some hh" using hh ne hs' by simp
      then have "elems s' (sliceOf s' (cfgName h)) = elems s (sliceOf s (cfgName h))"
        using hh elems_cong [OF hp [OF D(7) [OF hh]]] by simp
      then show ?thesis using D(3) [OF 1] by (simp add: hostAgrees_def)
    next
      case 2
      then have "sliceOf s' (cfgName h) = Checks hs'" using nm hs' by (simp add: sliceOf_def)
      then show ?thesis using vw 2 by (simp add: hostAgrees_def)
    qed
  qed
qed

lemma AddHost_consistent:
  assumes c: "consistent s"
  shows "consistent (snd (AddHost io X address hcurl s))"
proof (cases "hosts s X")
  case (Some hs)
  then show ?thesis using c by (simp add: AddHost_def)
next
  case None
  note D = consistentD [OF c]
  let ?c0 = "zeroCheckStatus\<lparr>Type := CheckPing, Enabled := True\<rparr>"
  let ?a = "appendCheck nilSlice ?c0 s"
  let ?hs' = "\<lparr>Name = X, Address = address, Checks = fst ?a, HCURL = hcurl\<rparr>"
  let ?h' = "\<lparr>cfgName = X, cfgAddress = address,
              cfgChecks = [zeroCheck\<lparr>cfgType := CheckPing, cfgEnabled := True\<rparr>],
              cfgHealthchecksPingURL = hcurl\<rparr>"
  let ?s3 = "updateCfgHosts (\<lambda>hs. hs @ [?h']) (setHost X ?hs' (snd ?a))"
  have r: "AddHost io X address hcurl s = saveConfigLocked io ?s3"
    using None by (simp add: AddHost_def Let_def case_prod_beta)
  have nilcap: "inCap s nilSlice" by (simp add: inCap_def nilSlice_def)
  have nolen: "\<not> len nilSlice < length (heap s (base nilSlice))"
    using D(4) by (simp add: nilSlice_def)
  have "consistent ?s3"
  proof (rule add_host_consistent [OF c None, where hs' = ?hs' and h' = ?h'])
    show "hosts ?s3 = (hosts s)(X \<mapsto> ?hs')" by simp
    show "Hosts (cfg ?s3) = Hosts (cfg s) @ [?h']" by simp
    show "cfgName ?h' = X" by simp
    show "\<And>a. a < nextAddr s \<Longrightarrow> heap ?s3 a = heap s a"
      using nolen by (simp add: appendCheck_def)
    show "nextAddr s \<le> nextAddr ?s3" using appendCheck_next by simp
    show "inCap ?s3 (Checks ?hs')" using appendCheck_inCap [OF nilcap, of ?c0] by (simp add: inCap_def)
    show "base (Checks ?hs') < nextAddr ?s3" using nolen by (simp add: appendCheck_def)
    show "base (Checks ?hs') = 0 \<or> nextAddr s \<le> base (Checks ?hs')"
      using nolen by (simp add: appendCheck_def)
    have "elems ?s3 (Checks ?hs') = elems (snd ?a) (fst ?a)" by (simp add: elems_def)
    then have "elems ?s3 (Checks ?hs') = [?c0]"
      using appendCheck_elems [OF nilcap, of ?c0] by (simp add: elems_def nilSlice_def)
    then show "map statusView (elems ?s3 (Checks ?hs')) = map checkView (cfgChecks ?h')"
      by (simp add: statusView_def checkView_def zeroCheckStatus_def zeroCheck_def)
  qed
  then show ?thesis unfolding r by (rule save_consistent)
qed

lemma AddHostWithoutDefaultCheck_consistent:
  assumes c: "consistent s"
  shows "consistent (snd (AddHostWithoutDefaultCheck io X address hcurl s))"
proof (cases "hosts s X")
  case (Some hs)
  then show ?thesis using c by (simp add: AddHostWithoutDefaultCheck_def)
next
  case None
  note D = consistentD [OF c]
  let ?hs' = "\<lparr>Name = X, Address = address, Checks = nilSlice, HCURL = hcurl\<rparr>"
  let ?h' = "\<lparr>cfgName = X, cfgAddress = address, cfgChecks = [], cfgHealthchecksPingURL = hcurl\<rparr>"
  let ?s3 = "updateCfgHosts (\<lambda>hs. hs @ [?h']) (setHost X ?hs' s)"
  have r: "AddHostWithoutDefaultCheck io X address hcurl s = saveConfigLocked io ?s3"
    using None by (simp add: AddHostWithoutDefaultCheck_def Let_def)
  have "consistent ?s3"
  proof (rule add_host_consistent [OF c None, where hs' = ?hs' and h' = ?h'])
    show "hosts ?s3 = (hosts s)(X \<mapsto> ?hs')" by simp
    show "Hosts (cfg ?s3) = Hosts (cfg s) @ [?h']" by simp
    show "cfgName ?h' = X" by simp
    show "\<And>a. a < nextAddr s \<Longrightarrow> heap ?s3 a = heap s a" by simp
    show "nextAddr s \<le> nextAddr ?s3" by simp
    show "inCap ?s3 (Checks ?hs')" by (simp add: inCap_def nilSlice_def)
    show "base (Checks ?hs') < nextAddr ?s3" using D(5) by (simp add: nilSlice_def)
    show "base (Checks ?hs') = 0 \<or> nextAddr s \<le> base (Checks ?hs')" by (simp add: nilSlice_def)
    show "map statusView (elems ?s3 (Checks ?hs')) = map checkView (cfgChecks ?h')"
      by (simp add: elems_def nilSlice_def)
  qed
  then show ?thesis unfolding r by (rule save_consistent)
qed

lemma removeFirst_names:
  "map cfgName (removeFirst X hs) = remove1 X (map cfgName hs)"
  by (induction hs) auto

lemma removeFirst_set:
  "distinct (map cfgName hs) \<Longrightarrow> set (removeFirst X hs) = {h \<in> set hs. cfgName h \<noteq> X}"
  by (induction hs) (auto simp: image_iff)

lemma DeleteHost_consistent:
  assumes c: "consistent s"
  shows "consistent (snd (DeleteHost io X s))"
proof (cases "hosts s X")
  case None
  then show ?thesis using c by (simp add: DeleteHost_def)
next
  case (Some hs)
  note D = consistentD [OF c]
  let ?s2 = "updateCfgHosts (removeFirst X) (s\<lparr>hosts := (hosts s)(X := None)\<rparr>)"
  have r: "DeleteHost io X s = saveConfigLocked io ?s2"
    using Some by (simp add: DeleteHost_def Let_def)
  have d: "distinct (map cfgName (Hosts (cfg s)))" using D(1) by (simp add: hostNames_def)
  have "consistent ?s2"
  proof (rule consistentI)
    have names: "hostNames ?s2 = remove1 X (hostNames s)"
      by (simp add: hostNames_def removeFirst_names)
    show "distinct (hostNames ?s2)" using D(1) names by simp
    show "dom (hosts ?s2) = set (hostNames ?s2)" using D(1,2) names by auto
    show "heap ?s2 0 = []" using D(4) by simp
    show "0 < nextAddr ?s2" using D(5) by simp
    show "\<And>n h. hosts ?s2 n = Some h \<Longrightarrow> inCap ?s2 (Checks h)"
      using D(6) by (auto simp: inCap_def split: if_splits)
    show "\<And>n h. hosts ?s2 n = Some h \<Longrightarrow> base (Checks h) < nextAddr ?s2"
      using D(7) by (auto split: if_splits)
    show "\<And>n1 n2 h1 h2. hosts ?s2 n1 = Some h1 \<Longrightarrow> hosts ?s2 n2 = Some h2 \<Longrightarrow> n1 \<noteq> n2
           \<Longrightarrow> base (Checks h1) \<noteq> 0 \<Longrightarrow> base (Checks h1) \<noteq> base (Checks h2)"
      using D(8) by (auto split: if_splits)
    show "\<And>h. h \<in> set (Hosts (cfg ?s2)) \<Longrightarrow> hostAgrees ?s2 h"
    proof -
      fix h assume "h \<in> set (Hosts (cfg ?s2))"
      then have m: "h \<in> set (Hosts (cfg s))" "cfgName h \<noteq> X"
        using removeFirst_set [OF d, of X] by auto
      then show "hostAgrees ?s2 h"
        using D(3) [OF m(1)] by (simp add: hostAgrees_def sliceOf_def elems_def)
    qed
  qed
  then show ?thesis unfolding r by (rule save_consistent)
qed

subsection \<open>Renaming a host\<close>

lemma updateFirst_rename:
  assumes "distinct (map cfgName hs)" and "\<And>h. cfgName (f h) = N"
  shows "map cfgName (updateFirst X f hs) = map (\<lambda>n. if n = X then N else n) (map cfgName hs)"
  using assms(1)
proof (induction hs)
  case Nil
  then show ?case by simp
next
  case (Cons a hs)
  show ?case
  proof (cases "cfgName a = X")
    case True
    then have "X \<notin> set (map cfgName hs)" using Cons.prems by auto
    then have "map (\<lambda>n. if n = X then N else n) (map cfgName hs) = map cfgName hs"
      by (induction hs) auto
    then show ?thesis using True assms(2) by simp
  next
    case False
    then show ?thesis using Cons by simp
  qed
qed

lemma UpdateHost_consistent:
  assumes c: "consistent s"
  shows "consistent (snd (UpdateHost io old new address hcurl s))"
proof (cases "hosts s old")
  case None
  then show ?thesis using c by (simp add: UpdateHost_def)
next
  case (Some hs)
  show ?thesis
  proof (cases "new \<noteq> old \<and> hosts s new \<noteq> None")
    case True
    then show ?thesis using c Some by (simp add: UpdateHost_def)
  next
    case False
    then have fresh: "new = old \<or> hosts s new = None" by blast
    note D = consistentD [OF c]
    let ?hs' = "hs\<lparr>Name := new, Address := address, HCURL := hcurl\<rparr>"
    let ?f = "\<lambda>h. h\<lparr>cfgName := new, cfgAddress := address, cfgHealthchecksPingURL := hcurl\<rparr>"
    let ?s2 = "updateCfgHosts (updateFirst old ?f)
                 (s\<lparr>hosts := ((hosts s)(old := None))(new \<mapsto> ?hs')\<rparr>)"
    have r: "UpdateHost io old new address hcurl s = saveConfigLocked io ?s2"
      using Some False by (auto simp add: UpdateHost_def Let_def)
    have d: "distinct (map cfgName (Hosts (cfg s)))" using D(1) by (simp add: hostNames_def)
    have names: "hostNames ?s2 = map (\<lambda>n. if n = old then new else n) (hostNames s)"
      using updateFirst_rename [OF d, of ?f new old] by (simp add: hostNames_def)
    have newfresh: "new = old \<or> new \<notin> set (hostNames s)" using fresh D(2) by auto
    have oldin: "old \<in> set (hostNames s)" using Some D(2) by auto
    have hs2: "hosts ?s2 = ((hosts s)(old := None))(new \<mapsto> ?hs')" by simp
    have src: "\<And>n h. hosts ?s2 n = Some h \<Longrightarrow>
        (n = new \<and> h = ?hs') \<or> (n \<noteq> new \<and> n \<noteq> old \<and> hosts s n = Some h)"
      unfolding hs2 by (auto split: if_splits)
    have "consistent ?s2"
    proof (rule consistentI)
      have "inj_on (\<lambda>n. if n = old then new else n) (set (hostNames s))"
        using newfresh by (auto simp: inj_on_def)
      then show "distinct (hostNames ?s2)" using D(1) names by (simp add: distinct_map)
      have "dom (hosts ?s2) = insert new (dom (hosts s) - {old})" unfolding hs2 by auto
      also have "\<dots> = (\<lambda>n. if n = old then new else n) ` set (hostNames s)"
        using D(2) oldin by (auto simp: image_iff)
      finally show "dom (hosts ?s2) = set (hostNames ?s2)" using names by simp
      show "heap ?s2 0 = []" using D(4) by simp
      show "0 < nextAddr ?s2" using D(5) by simp
      show "\<And>n h. hosts ?s2 n = Some h \<Longrightarrow> inCap ?s2 (Checks h)"
      proof -
        fix n h assume "hosts ?s2 n = Some h"
        then have "Checks h = Checks hs \<or> hosts s n = Some h" using src by fastforce
        then have "inCap s (Checks h)" using D(6) Some by metis
        then show "inCap ?s2 (Checks h)" by (simp add: inCap_def)
      qed
      show "\<And>n h. hosts ?s2 n = Some h \<Longrightarrow> base (Checks h) < nextAddr ?s2"
      proof -
        fix n h assume "hosts ?s2 n = Some h"
        then have "Checks h = Checks hs \<or> hosts s n = Some h" using src by fastforce
        then have "base (Checks h) < nextAddr s" using D(7) Some by metis
        then show "base (Checks h) < nextAddr ?s2" by simp
      qed
      show "\<And>n1 n2 h1 h2. hosts ?s2 n1 = Some h1 \<Longrightarrow> hosts ?s2 n2 = Some h2 \<Longrightarrow> n1 \<noteq> n2
           \<Longrightarrow> base (Checks h1) \<noteq> 0 \<Longrightarrow> base (Checks h1) \<noteq> base (Checks h2)"
      proof -
        fix n1 n2 h1 h2
        assume a: "hosts ?s2 n1 = Some h1" "hosts ?s2 n2 = Some h2" "n1 \<noteq> n2"
          "base (Checks h1) \<noteq> 0"
        have s1: "(n1 = new \<and> h1 = ?hs') \<or> (n1 \<noteq> new \<and> n1 \<noteq> old \<and> hosts s n1 = Some h1)"
          using src [OF a(1)] .
        have s2: "(n2 = new \<and> h2 = ?hs') \<or> (n2 \<noteq> new \<and> n2 \<noteq> old \<and> hosts s n2 = Some h2)"
          using src [OF a(2)] .
        consider "n1 = new" "h1 = ?hs'" "n2 \<noteq> new" "n2 \<noteq> old" "hosts s n2 = Some h2"
          | "n2 = new" "h2 = ?hs'" "n1 \<noteq> new" "n1 \<noteq> old" "hosts s n1 = Some h1"
          | "n1 \<noteq> new" "n2 \<noteq> new" "hosts s n1 = Some h1" "hosts s n2 = Some h2"
          using s1 s2 a(3) by blast
        then show "base (Checks h1) \<noteq> base (Checks h2)"
        proof cases
          case 1
          have "base (Checks hs) \<noteq> 0" using a(4) 1(2) by simp
          then have "base (Checks hs) \<noteq> base (Checks h2)"
            using D(8) [OF Some 1(5)] 1(4) by blast
          then show ?thesis using 1(2) by simp
        next
          case 2
          have "base (Checks h1) \<noteq> base (Checks hs)"
            using D(8) [OF 2(5) Some 2(4) a(4)] .
          then show ?thesis using 2(2) by simp
        next
          case 3
          show ?thesis using D(8) [OF 3(3,4) a(3,4)] .
        qed
      qed
      show "\<And>h. h \<in> set (Hosts (cfg ?s2)) \<Longrightarrow> hostAgrees ?s2 h"
      proof -
        fix h' assume "h' \<in> set (Hosts (cfg ?s2))"
        then have m: "h' \<in> set (updateFirst old ?f (Hosts (cfg s)))" by simp
        consider "h' \<in> set (Hosts (cfg s))" "cfgName h' \<noteq> old"
          | h where "findHost old (Hosts (cfg s)) = Some h" "h' = ?f h"
          using updateFirst_set [OF d m] by blast
        then show "hostAgrees ?s2 h'"
        proof cases
          case 1
          have "cfgName h' \<in> set (hostNames s)" using 1(1) by (simp add: hostNames_def)
          then have "cfgName h' \<noteq> new" using newfresh 1(2) by auto
          then have "sliceOf ?s2 (cfgName h') = sliceOf s (cfgName h')"
            using 1(2) by (simp add: sliceOf_def)
          then show ?thesis using D(3) [OF 1(1)] by (simp add: hostAgrees_def elems_def)
        next
          case 2
          have hm: "h \<in> set (Hosts (cfg s))" "cfgName h = old"
            using findHost_mem [OF 2(1)] by simp_all
          have "sliceOf ?s2 (cfgName h') = Checks hs" using 2(2) by (simp add: sliceOf_def)
          moreover have "sliceOf s (cfgName h) = Checks hs" using hm(2) Some by simp
          ultimately show ?thesis
            using D(3) [OF hm(1)] 2(2) by (simp add: hostAgrees_def elems_def)
        qed
      qed
    qed
    then show ?thesis unfolding r by (rule save_consistent)
  qed
qed

subsection \<open>What reaches the file\<close>

lemma persistable_frame2 [simp]:
  "persistable (s\<lparr>hosts := hm\<rparr>) = persistable s"
  "persistable (store p c s) = persistable s"
  by (simp_all add: persistable_def store_def)

lemma AddHost_persists:
  assumes "persistable s" and "fst (AddHost io X a u s) = None"
  shows "disk (snd (AddHost io X a u s)) = Some (cfg (snd (AddHost io X a u s)))"
proof (cases "hosts s X")
  case (Some hs)
  then show ?thesis using assms(2) by (simp add: AddHost_def)
next
  case None
  then show ?thesis
    using assms by (simp add: AddHost_def Let_def case_prod_beta save_disk)
qed

lemma AddHostWithoutDefaultCheck_persists:
  assumes "persistable s" and "fst (AddHostWithoutDefaultCheck io X a u s) = None"
  shows "disk (snd (AddHostWithoutDefaultCheck io X a u s))
         = Some (cfg (snd (AddHostWithoutDefaultCheck io X a u s)))"
proof (cases "hosts s X")
  case (Some hs)
  then show ?thesis using assms(2) by (simp add: AddHostWithoutDefaultCheck_def)
next
  case None
  then show ?thesis
    using assms by (simp add: AddHostWithoutDefaultCheck_def Let_def save_disk)
qed

lemma UpdateHost_persists:
  assumes "persistable s" and "fst (UpdateHost io old new a u s) = None"
  shows "disk (snd (UpdateHost io old new a u s)) = Some (cfg (snd (UpdateHost io old new a u s)))"
proof (cases "hosts s old")
  case None
  then show ?thesis using assms(2) by (simp add: UpdateHost_def)
next
  case (Some hs)
  show ?thesis
  proof (cases "new \<noteq> old \<and> hosts s new \<noteq> None")
    case True
    then show ?thesis using assms(2) Some by (simp add: UpdateHost_def)
  next
    case False
    let ?s2 = "updateCfgHosts (updateFirst old
                  (\<lambda>h. h\<lparr>cfgName := new, cfgAddress := a, cfgHealthchecksPingURL := u\<rparr>))
                 (s\<lparr>hosts := ((hosts s)(old := None))
                     (new \<mapsto> hs\<lparr>Name := new, Address := a, HCURL := u\<rparr>)\<rparr>)"
    have r: "UpdateHost io old new a u s = saveConfigLocked io ?s2"
      using Some False by (auto simp add: UpdateHost_def Let_def)
    have "persistable ?s2" using assms(1) by simp
    then show ?thesis using assms(2) unfolding r by (rule save_disk)
  qed
qed

lemma DeleteHost_persists:
  assumes "persistable s" and "fst (DeleteHost io X s) = None"
  shows "disk (snd (DeleteHost io X s)) = Some (cfg (snd (DeleteHost io X s)))"
proof (cases "hosts s X")
  case None
  then show ?thesis using assms(2) by (simp add: DeleteHost_def)
next
  case (Some hs)
  then show ?thesis
    using assms by (simp add: DeleteHost_def Let_def save_disk)
qed

lemma addCheck_persists:
  assumes "persistable s" and "fst (addCheck io order X cs ck s) = None"
  shows "disk (snd (addCheck io order X cs ck s)) = Some (cfg (snd (addCheck io order X cs ck s)))"
proof (cases "hosts s X")
  case None
  then show ?thesis using assms(2) by (simp add: addCheck_def)
next
  case (Some hs)
  show ?thesis
    using assms unfolding addCheck_result [OF Some] by (simp add: save_disk)
qed

lemma RemoveCheck_persists:
  assumes "persistable s" and "fst (RemoveCheck io X idx s) = None"
  shows "disk (snd (RemoveCheck io X idx s)) = Some (cfg (snd (RemoveCheck io X idx s)))"
proof (cases "hosts s X")
  case None
  then show ?thesis using assms(2) by (simp add: RemoveCheck_def)
next
  case (Some hs)
  show ?thesis
  proof (cases "badIndex idx (len (Checks hs))")
    case True
    then show ?thesis using assms(2) Some by (simp add: RemoveCheck_def)
  next
    case False
    then show ?thesis
      using assms Some by (simp add: RemoveCheck_def Let_def case_prod_beta save_disk)
  qed
qed

lemma updateCheck_persists:
  assumes "persistable s" and "fst (updateCheck io order X idx tt f g s) = None"
  shows "disk (snd (updateCheck io order X idx tt f g s))
         = Some (cfg (snd (updateCheck io order X idx tt f g s)))"
proof (cases "hosts s X")
  case None
  then show ?thesis using assms(2) by (simp add: updateCheck_def)
next
  case (Some hs)
  show ?thesis
  proof (cases "badIndex idx (len (Checks hs))")
    case True
    then show ?thesis using assms(2) Some by (simp add: updateCheck_def)
  next
    case False
    show ?thesis
    proof (cases "tt (Type (deref s (elemPtr (Checks hs) (nat idx))))")
      case (Some e)
      then show ?thesis using assms(2) \<open>hosts s X = Some hs\<close> False by (simp add: updateCheck_def)
    next
      case None
      then show ?thesis
        using assms \<open>hosts s X = Some hs\<close> False by (simp add: updateCheck_def Let_def save_disk)
    qed
  qed
qed

lemma Toggle_cfg: "cfg (Toggle X idx e s) = cfg s" "disk (Toggle X idx e s) = disk s"
  by (simp_all add: Toggle_def split: option.splits)

lemma setEnabledHosts_cfg:
  "cfg (setEnabledHosts e ns s) = cfg s \<and> disk (setEnabledHosts e ns s) = disk s"
  by (induction ns arbitrary: s) (simp_all add: setEnabledHost_def split: option.splits)

lemma view_new_http:
  "statusView (zeroCheckStatus\<lparr>Type := CheckHTTP, Enabled := True, URL := url, Expect := e,
          ID := cid, DependsOn := dep, MQTTNotify := mq\<rparr>)
   = checkView (zeroCheck\<lparr>cfgType := CheckHTTP, cfgEnabled := True, cfgURL := url, cfgExpect := e,
          cfgID := cid, cfgDependsOn := dep, cfgMQTTNotify := mq\<rparr>)"
  by (simp add: statusView_def checkView_def zeroCheckStatus_def zeroCheck_def)

lemma view_new_ping:
  "statusView (zeroCheckStatus\<lparr>Type := CheckPing, Enabled := True,
          ID := cid, DependsOn := dep, MQTTNotify := mq\<rparr>)
   = checkView (zeroCheck\<lparr>cfgType := CheckPing, cfgEnabled := True,
          cfgID := cid, cfgDependsOn := dep, cfgMQTTNotify := mq\<rparr>)"
  by (simp add: statusView_def checkView_def zeroCheckStatus_def zeroCheck_def)

lemma view_new_tcp:
  "statusView (zeroCheckStatus\<lparr>Type := CheckTCP, Enabled := True, Port := p,
          ID := cid, DependsOn := dep, MQTTNotify := mq\<rparr>)
   = checkView (zeroCheck\<lparr>cfgType := CheckTCP, cfgEnabled := True, cfgPort := p,
          cfgID := cid, cfgDependsOn := dep, cfgMQTTNotify := mq\<rparr>)"
  by (simp add: statusView_def checkView_def zeroCheckStatus_def zeroCheck_def)

lemma view_update_http:
  "statusView c = checkView k \<Longrightarrow>
   statusView (c\<lparr>URL := url, Expect := e, ID := cid, DependsOn := dep, MQTTNotify := mq\<rparr>)
   = checkView (k\<lparr>cfgURL := url, cfgExpect := e, cfgID := cid, cfgDependsOn := dep,
        cfgMQTTNotify := mq\<rparr>)"
  by (auto simp: statusView_def checkView_def split: if_splits)

lemma view_update_tcp:
  "statusView c = checkView k \<Longrightarrow>
   statusView (c\<lparr>Port := p, ID := cid, DependsOn := dep, MQTTNotify := mq\<rparr>)
   = checkView (k\<lparr>cfgPort := p, cfgID := cid, cfgDependsOn := dep, cfgMQTTNotify := mq\<rparr>)"
  by (auto simp: statusView_def checkView_def split: if_splits)

lemma view_update_deps:
  "statusView c = checkView k \<Longrightarrow>
   statusView (c\<lparr>ID := cid, DependsOn := dep, MQTTNotify := mq\<rparr>)
   = checkView (k\<lparr>cfgID := cid, cfgDependsOn := dep, cfgMQTTNotify := mq\<rparr>)"
  by (auto simp: statusView_def checkView_def split: if_splits)

lemma applyMutation_consistent:
  assumes "consistent s"
  shows "consistent (snd (applyMutation io order m s))"
proof (cases m)
  case (MAddHost n a u)
  then show ?thesis using assms by (simp add: AddHost_consistent)
next
  case (MAddHostWithoutDefaultCheck n a u)
  then show ?thesis using assms by (simp add: AddHostWithoutDefaultCheck_consistent)
next
  case (MUpdateHost old new a u)
  then show ?thesis using assms by (simp add: UpdateHost_consistent)
next
  case (MDeleteHost n)
  then show ?thesis using assms by (simp add: DeleteHost_consistent)
next
  case (MAddHTTPCheck n url e cid dep mq)
  show ?thesis unfolding MAddHTTPCheck applyMutation.simps AddHTTPCheck_def
    by (rule addCheck_consistent [OF assms view_new_http])
next
  case (MAddPingCheck n cid dep mq)
  show ?thesis unfolding MAddPingCheck applyMutation.simps AddPingCheck_def
    by (rule addCheck_consistent [OF assms view_new_ping])
next
  case (MAddTCPCheck n p cid dep mq)
  show ?thesis unfolding MAddTCPCheck applyMutation.simps AddTCPCheck_def
    by (rule addCheck_consistent [OF assms view_new_tcp])
next
  case (MRemoveCheck n idx)
  then show ?thesis using assms by (simp add: RemoveCheck_consistent)
next
  case (MUpdateHTTPCheck n idx url e cid dep mq)
  show ?thesis unfolding MUpdateHTTPCheck applyMutation.simps UpdateHTTPCheck_def
    by (rule updateCheck_consistent [OF assms view_update_http])
next
  case (MUpdateTCPCheck n idx p cid dep mq)
  show ?thesis unfolding MUpdateTCPCheck applyMutation.simps UpdateTCPCheck_def
    by (rule updateCheck_consistent [OF assms view_update_tcp])
next
  case (MUpdateCheckDependencies n idx cid dep mq)
  show ?thesis unfolding MUpdateCheckDependencies applyMutation.simps UpdateCheckDependencies_def
    by (rule updateCheck_consistent [OF assms view_update_deps])
next
  case (MToggle n idx en)
  then show ?thesis using assms by (simp add: Toggle_consistent)
next
  case (MSetAllEnabled en)
  then show ?thesis using assms by (simp add: SetAllEnabled_consistent)
qed

lemma applyMutation_persists:
  assumes "persistable s" and "\<not> writesEnabledOnly m" and "fst (applyMutation io order m s) = None"
  shows "disk (snd (applyMutation io order m s)) = Some (cfg (snd (applyMutation io order m s)))"
proof (cases m)
  case (MAddHost n a u)
  then show ?thesis using assms by (simp add: AddHost_persists)
next
  case (MAddHostWithoutDefaultCheck n a u)
  then show ?thesis using assms by (simp add: AddHostWithoutDefaultCheck_persists)
next
  case (MUpdateHost old new a u)
  then show ?thesis using assms by (simp add: UpdateHost_persists)
next
  case (MDeleteHost n)
  then show ?thesis using assms by (simp add: DeleteHost_persists)
next
  case (MAddHTTPCheck n url e cid dep mq)
  then show ?thesis using assms by (simp add: AddHTTPCheck_def addCheck_persists)
next
  case (MAddPingCheck n cid dep mq)
  then show ?thesis using assms by (simp add: AddPingCheck_def addCheck_persists)
next
  case (MAddTCPCheck n p cid dep mq)
  then show ?thesis using assms by (simp add: AddTCPCheck_def addCheck_persists)
next
  case (MRemoveCheck n idx)
  then show ?thesis using assms by (simp add: RemoveCheck_persists)
next
  case (MUpdateHTTPCheck n idx url e cid dep mq)
  then show ?thesis using assms by (simp add: UpdateHTTPCheck_def updateCheck_persists)
next
  case (MUpdateTCPCheck n idx p cid dep mq)
  then show ?thesis using assms by (simp add: UpdateTCPCheck_def updateCheck_persists)
next
  case (MUpdateCheckDependencies n idx cid dep mq)
  then show ?thesis using assms by (simp add: UpdateCheckDependencies_def updateCheck_persists)
next
  case (MToggle n idx en)
  then show ?thesis using assms by simp
next
  case (MSetAllEnabled en)
  then show ?thesis using assms by simp
qed

lemma applyMutation_enabled_only:
  assumes "writesEnabledOnly m"
  shows "cfg (snd (applyMutation io order m s)) = cfg s
       \<and> disk (snd (applyMutation io order m s)) = disk s
       \<and> fst (applyMutation io order m s) = None"
  using assms by (cases m) (simp_all add: Toggle_cfg SetAllEnabled_def setEnabledHosts_cfg)

subsection \<open>The store built by \<^verbatim>\<open>New\<close>\<close>

lemma appendChecks_props:
  assumes "inCap s sl" and "base sl < nextAddr s" and "base sl = 0 \<or> N \<le> base sl"
    and "heap s 0 = []" and "N \<le> nextAddr s"
  shows "inCap (snd (appendChecks sl cs s)) (fst (appendChecks sl cs s))
       \<and> base (fst (appendChecks sl cs s)) < nextAddr (snd (appendChecks sl cs s))
       \<and> (base (fst (appendChecks sl cs s)) = 0 \<or> N \<le> base (fst (appendChecks sl cs s)))
       \<and> heap (snd (appendChecks sl cs s)) 0 = []
       \<and> nextAddr s \<le> nextAddr (snd (appendChecks sl cs s))
       \<and> (\<forall>a. a < N \<longrightarrow> heap (snd (appendChecks sl cs s)) a = heap s a)
       \<and> elems (snd (appendChecks sl cs s)) (fst (appendChecks sl cs s))
           = elems s sl @ map statusOfCheck cs
       \<and> hosts (snd (appendChecks sl cs s)) = hosts s
       \<and> cfg (snd (appendChecks sl cs s)) = cfg s"
  using assms
proof (induction cs arbitrary: sl s)
  case Nil
  then show ?case by simp
next
  case (Cons c cs)
  let ?a = "appendCheck sl (statusOfCheck c) s"
  have r: "appendChecks sl (c # cs) s = appendChecks (fst ?a) cs (snd ?a)"
    by (simp add: case_prod_beta)
  have z: "0 < nextAddr s" using Cons.prems(2) by simp
  have p1: "inCap (snd ?a) (fst ?a)" using Cons.prems(1) by (rule appendCheck_inCap)
  have p2: "base (fst ?a) < nextAddr (snd ?a)" using Cons.prems(2) by (rule appendCheck_base_lt)
  have p3: "base (fst ?a) = 0 \<or> N \<le> base (fst ?a)"
    using appendCheck_base [of sl "statusOfCheck c" s] Cons.prems(3,5) by auto
  have p4: "heap (snd ?a) 0 = []"
    using appendCheck_heap_other [of 0 sl s "statusOfCheck c"] z Cons.prems(4) by simp
  have nx: "nextAddr s \<le> nextAddr (snd ?a)" by (rule appendCheck_next)
  then have p5: "N \<le> nextAddr (snd ?a)" using Cons.prems(5) by simp
  have fr: "\<And>a. a < N \<Longrightarrow> heap (snd ?a) a = heap s a"
  proof -
    fix a assume a: "a < N"
    then have "a \<noteq> base sl \<or> a = 0" using Cons.prems(3) by auto
    moreover have "a < nextAddr s" using a Cons.prems(5) by simp
    ultimately show "heap (snd ?a) a = heap s a"
      using Cons.prems(4) by (rule appendCheck_heap_other)
  qed
  have el: "elems (snd ?a) (fst ?a) = elems s sl @ [statusOfCheck c]"
    using Cons.prems(1) by (rule appendCheck_elems)
  note IH = Cons.IH [OF p1 p2 p3 p4 p5]
  show ?case unfolding r using IH nx fr el by simp
qed

lemma view_statusOfCheck: "statusView (statusOfCheck c) = checkView c"
  by (simp add: statusView_def checkView_def statusOfCheck_def zeroCheckStatus_def Let_def)

lemma appendChecks_cfg: "cfg (snd (appendChecks sl cs s)) = cfg s"
  by (induction cs arbitrary: sl s) (simp_all add: case_prod_beta)

lemma loadHosts_cfg: "cfg (loadHosts hs s) = cfg s"
  by (induction hs arbitrary: s) (simp_all add: case_prod_beta appendChecks_cfg)

lemma loadHosts_consistent:
  assumes "consistent (updateCfgHosts (\<lambda>x. ds) s)" and "distinct (map cfgName (ds @ todo))"
  shows "consistent (updateCfgHosts (\<lambda>x. ds @ todo) (loadHosts todo s))"
  using assms
proof (induction todo arbitrary: s ds)
  case Nil
  then show ?case by simp
next
  case (Cons h todo)
  let ?s0 = "updateCfgHosts (\<lambda>x. ds) s"
  let ?a = "appendChecks nilSlice (cfgChecks h) s"
  let ?hs' = "\<lparr>Name = cfgName h, Address = cfgAddress h, Checks = fst ?a,
              HCURL = cfgHealthchecksPingURL h\<rparr>"
  let ?s2 = "setHost (cfgName h) ?hs' (snd ?a)"
  note D = consistentD [OF Cons.prems(1)]
  have r: "loadHosts (h # todo) s = loadHosts todo ?s2" by (simp add: case_prod_beta)
  have nilcap: "inCap s nilSlice" by (simp add: inCap_def nilSlice_def)
  have h0: "heap s 0 = []" and nz: "0 < nextAddr s" using D(4,5) by simp_all
  have P: "inCap (snd ?a) (fst ?a)
       \<and> base (fst ?a) < nextAddr (snd ?a)
       \<and> (base (fst ?a) = 0 \<or> nextAddr s \<le> base (fst ?a))
       \<and> heap (snd ?a) 0 = []
       \<and> nextAddr s \<le> nextAddr (snd ?a)
       \<and> (\<forall>a. a < nextAddr s \<longrightarrow> heap (snd ?a) a = heap s a)
       \<and> elems (snd ?a) (fst ?a) = elems s nilSlice @ map statusOfCheck (cfgChecks h)
       \<and> hosts (snd ?a) = hosts s
       \<and> cfg (snd ?a) = cfg s"
    by (rule appendChecks_props [OF nilcap]) (simp_all add: nilSlice_def nz h0)
  have fresh: "hosts s (cfgName h) = None"
  proof -
    have "cfgName h \<notin> set (map cfgName ds)" using Cons.prems(2) by auto
    then have "cfgName h \<notin> dom (hosts s)" using D(2) by (simp add: hostNames_def)
    then show ?thesis by auto
  qed
  have "consistent (updateCfgHosts (\<lambda>x. ds @ [h]) ?s2)"
  proof (rule add_host_consistent [OF Cons.prems(1), where X = "cfgName h" and hs' = ?hs' and h' = h])
    show "hosts ?s0 (cfgName h) = None" using fresh by simp
    show "hosts (updateCfgHosts (\<lambda>x. ds @ [h]) ?s2) = (hosts ?s0)(cfgName h \<mapsto> ?hs')"
      using P by simp
    show "Hosts (cfg (updateCfgHosts (\<lambda>x. ds @ [h]) ?s2)) = Hosts (cfg ?s0) @ [h]" by simp
    show "cfgName h = cfgName h" by simp
    show "\<And>a. a < nextAddr ?s0 \<Longrightarrow> heap (updateCfgHosts (\<lambda>x. ds @ [h]) ?s2) a = heap ?s0 a"
      using P by simp
    show "nextAddr ?s0 \<le> nextAddr (updateCfgHosts (\<lambda>x. ds @ [h]) ?s2)" using P by simp
    show "inCap (updateCfgHosts (\<lambda>x. ds @ [h]) ?s2) (Checks ?hs')"
      using P by (simp add: inCap_def)
    show "base (Checks ?hs') < nextAddr (updateCfgHosts (\<lambda>x. ds @ [h]) ?s2)" using P by simp
    show "base (Checks ?hs') = 0 \<or> nextAddr ?s0 \<le> base (Checks ?hs')" using P by simp
    have "elems (updateCfgHosts (\<lambda>x. ds @ [h]) ?s2) (Checks ?hs') = elems (snd ?a) (fst ?a)"
      by (simp add: elems_def)
    also have "\<dots> = map statusOfCheck (cfgChecks h)"
      using P by (simp add: elems_def nilSlice_def)
    finally show "map statusView (elems (updateCfgHosts (\<lambda>x. ds @ [h]) ?s2) (Checks ?hs'))
        = map checkView (cfgChecks h)"
      by (simp add: view_statusOfCheck comp_def)
  qed
  moreover have "distinct (map cfgName ((ds @ [h]) @ todo))" using Cons.prems(2) by simp
  ultimately have "consistent (updateCfgHosts (\<lambda>x. (ds @ [h]) @ todo) (loadHosts todo ?s2))"
    by (rule Cons.IH)
  then show ?case unfolding r by simp
qed

lemma New_consistent:
  assumes "distinct (map cfgName (Hosts c))"
  shows "consistent (New order c)"
proof -
  have e: "consistent (updateCfgHosts (\<lambda>x. []) (emptyState c))"
    by (simp add: agree_defs emptyState_def updateCfgHosts_def)
  have l: "consistent (updateCfgHosts (\<lambda>x. [] @ Hosts c) (loadHosts (Hosts c) (emptyState c)))"
    using e by (rule loadHosts_consistent) (simp add: assms)
  have "cfg (loadHosts (Hosts c) (emptyState c)) = c"
    by (simp add: loadHosts_cfg emptyState_def)
  then have "consistent (loadHosts (Hosts c) (emptyState c))"
    by (intro consistent_cong [OF l]) (simp_all add: updateCfgHosts_def)
  then show ?thesis unfolding New_def by (rule rebuild_consistent)
qed

lemma SetConfigPath_consistent: "consistent s \<Longrightarrow> consistent (SetConfigPath p s)"
  by (rule consistent_cong) (simp_all add: SetConfigPath_def)

lemma runMutations_consistent:
  "consistent s \<Longrightarrow> consistent (runMutations ms s)"
  by (induction ms arbitrary: s) (auto simp: applyMutation_consistent)

lemma reachable_consistent:
  assumes "distinct (map cfgName (Hosts c))"
  shows "consistent (runMutations ms (SetConfigPath p (New order c)))"
  by (intro runMutations_consistent SetConfigPath_consistent New_consistent assms)

subsection \<open>All mutating operations\<close>

text \<open>
  Claim C5, amended. In a store whose runtime status and configuration agree, every mutating
  operation leaves them in agreement: the configuration names the hosts of the store, and for
  each host the checks of the two are the same in number, in order and in their common fields
  other than \<^verbatim>\<open>Enabled\<close>. Every operation other than \<^verbatim>\<open>Toggle\<close> and \<^verbatim>\<open>SetAllEnabled\<close>, when it
  returns no error on a store bound to a path with a known extension, has written the
  configuration to the file. \<^verbatim>\<open>Toggle\<close> and \<^verbatim>\<open>SetAllEnabled\<close> change neither the configuration
  nor the file.
\<close>

theorem mutations_keep_store_and_config_in_step:
  assumes "consistent s"
  shows "consistent (snd (applyMutation io order m s))
     \<and> (\<forall>h \<in> set (Hosts (cfg (snd (applyMutation io order m s)))).
          map statusView (elems (snd (applyMutation io order m s))
                            (sliceOf (snd (applyMutation io order m s)) (cfgName h)))
            = map checkView (cfgChecks h))
     \<and> (\<not> writesEnabledOnly m \<and> persistable s \<and> fst (applyMutation io order m s) = None
          \<longrightarrow> disk (snd (applyMutation io order m s)) = Some (cfg (snd (applyMutation io order m s))))
     \<and> (writesEnabledOnly m
          \<longrightarrow> cfg (snd (applyMutation io order m s)) = cfg s
              \<and> disk (snd (applyMutation io order m s)) = disk s)"
proof -
  have c: "consistent (snd (applyMutation io order m s))"
    using assms by (rule applyMutation_consistent)
  have a: "\<forall>h \<in> set (Hosts (cfg (snd (applyMutation io order m s)))).
          map statusView (elems (snd (applyMutation io order m s))
                            (sliceOf (snd (applyMutation io order m s)) (cfgName h)))
            = map checkView (cfgChecks h)"
    using consistentD(3) [OF c] by (simp add: hostAgrees_def)
  have p: "\<not> writesEnabledOnly m \<and> persistable s \<and> fst (applyMutation io order m s) = None
          \<longrightarrow> disk (snd (applyMutation io order m s)) = Some (cfg (snd (applyMutation io order m s)))"
    using applyMutation_persists by blast
  have e: "writesEnabledOnly m
          \<longrightarrow> cfg (snd (applyMutation io order m s)) = cfg s
              \<and> disk (snd (applyMutation io order m s)) = disk s"
    using applyMutation_enabled_only by blast
  show ?thesis using c a p e by blast
qed

text \<open>
  The theorem on the store in which "Internet" has two checks: the removal of the first is
  written to the file, and disabling the first leaves the configuration as it was.
\<close>

theorem mutations_keep_store_and_config_in_step_witness:
  "consistent exTwoChecks
   \<and> consistent (snd (applyMutation fsOK exOrder (MRemoveCheck ''Internet'' 0) exTwoChecks))
   \<and> fst (applyMutation fsOK exOrder (MRemoveCheck ''Internet'' 0) exTwoChecks) = None
   \<and> disk (snd (applyMutation fsOK exOrder (MRemoveCheck ''Internet'' 0) exTwoChecks))
       = Some (cfg (snd (applyMutation fsOK exOrder (MRemoveCheck ''Internet'' 0) exTwoChecks)))
   \<and> consistent (snd (applyMutation fsOK exOrder (MToggle ''Internet'' 0 False) exTwoChecks))
   \<and> cfg (snd (applyMutation fsOK exOrder (MToggle ''Internet'' 0 False) exTwoChecks))
       = cfg exTwoChecks"
proof -
  have c: "consistent exTwoChecks" by (auto simp: agree_defs ex_ops)
  have p: "persistable exTwoChecks"
    "fst (applyMutation fsOK exOrder (MRemoveCheck ''Internet'' 0) exTwoChecks) = None"
    "\<not> writesEnabledOnly (MRemoveCheck ''Internet'' 0)"
    "writesEnabledOnly (MToggle ''Internet'' 0 False)"
    by (simp_all add: persistable_def ex_ops)
  show ?thesis
    using mutations_keep_store_and_config_in_step [OF c, of fsOK exOrder "MRemoveCheck ''Internet'' 0"]
      mutations_keep_store_and_config_in_step [OF c, of fsOK exOrder "MToggle ''Internet'' 0 False"]
      c p
    by blast
qed

text \<open>
  Against the claim as stated: after \<^verbatim>\<open>Toggle\<close> has disabled the first check of "Internet", the
  store holds it disabled, while the configuration and the file hold it enabled.
\<close>

theorem toggle_leaves_config_untouched_counterexample:
  "map Enabled (elems (snd (applyMutation fsOK exOrder (MToggle ''Internet'' 0 False) exTwoChecks))
       (sliceOf (snd (applyMutation fsOK exOrder (MToggle ''Internet'' 0 False) exTwoChecks))
          ''Internet'')) = [False, True]
   \<and> map_option (map cfgEnabled) (map_option cfgChecks (findHost ''Internet''
       (Hosts (cfg (snd (applyMutation fsOK exOrder (MToggle ''Internet'' 0 False) exTwoChecks))))))
       = Some [True, True]
   \<and> map_option (map cfgEnabled)
       (persistedChecks (snd (applyMutation fsOK exOrder (MToggle ''Internet'' 0 False) exTwoChecks))
          ''Internet'') = Some [True, True]"
  by (simp add: persistedChecks_def sliceOf_def Toggle_def ex_ops)

end
